theory Spec2Isabelle
  imports Main "HOL-Library.Word" "HOL-Library.Sublist"
begin

unbundle bit_operations_syntax

section \<open>The lexer interface used by the generated Emoji codec\<close>

text \<open>
  The codec in \<open>discord/emoji_ffjson.go\<close> consumes the ffjson lexer token by token.
  Go byte slices and strings are lists of 8-bit characters.
\<close>

type_synonym bytes = string

text \<open>
  The token kinds of the lexer. In ffjson \<open>FFTok_left_bracket\<close> opens an object and
  \<open>FFTok_left_brace\<close> opens an array, which is how the generated code uses them.
\<close>

datatype FFTok =
    FFTok_init | FFTok_bool | FFTok_colon | FFTok_comma | FFTok_eof | FFTok_error
  | FFTok_left_brace | FFTok_left_bracket | FFTok_integer | FFTok_double | FFTok_null
  | FFTok_right_brace | FFTok_right_bracket | FFTok_string | FFTok_comment

datatype FFParseState =
    FFParse_map_start | FFParse_want_key | FFParse_want_colon
  | FFParse_want_value | FFParse_after_value

text \<open>The constants \<open>ffjtEmojibase\<close>, ... of lines 126-145.\<close>

datatype ffjtEmoji =
    ffjtEmojibase | ffjtEmojinosuchkey | ffjtEmojiID | ffjtEmojiName | ffjtEmojiRoleIDs
  | ffjtEmojiUser | ffjtEmojiRequireColons | ffjtEmojiManaged | ffjtEmojiAnimated
  | ffjtEmojiAvailable

text \<open>
  Every error value the decoder can return. \<open>CannotUnmarshal\<close> is the type mismatch
  ("cannot unmarshal <token> into Go value for <type>"), \<open>UnexpectedBoolBytes\<close> the
  malformed scalar ("unexpected bytes for true/false value"), \<open>WantedValueToken\<close> and
  \<open>WantedToken\<close> the structural errors; \<open>LibError\<close> stands for an error produced by
  the lexer library or by a nested codec, \<open>WrapErr\<close> for \<open>fs.WrapErr\<close>, and
  \<open>Panic_unreachable\<close> for the panic at the end of the \<open>tokerror\<close> block.
\<close>

datatype error =
    LibError bytes
  | CannotUnmarshal FFTok bytes
  | UnexpectedBoolBytes
  | WantedValueToken FFTok
  | WantedToken FFTok FFTok bytes
  | WrapErr error
  | Panic_unreachable

text \<open>
  The lexer state: the tokens still to be scanned, each with the bytes the lexer
  captures for it, the capture buffer \<open>Output\<close> of the current token, and the two error
  slots read by the \<open>tokerror\<close> block (\<open>Error\<close> holds the result of \<open>fs.Error.ToError()\<close>).
\<close>

record FFLexer =
  pending :: "(FFTok \<times> bytes) list"
  Output :: bytes
  BigError :: "error option"
  Error :: "error option"

text \<open>\<open>fs.Scan()\<close>: the next token, whose captured bytes become \<open>fs.Output\<close>.\<close>

definition Scan :: "FFLexer \<Rightarrow> FFTok \<times> FFLexer" where
  "Scan fs = (case pending fs of
      [] \<Rightarrow> (FFTok_eof, fs\<lparr>Output := []\<rparr>)
    | (tok, out) # rest \<Rightarrow> (tok, fs\<lparr>pending := rest, Output := out\<rparr>))"

section \<open>The Emoji entity and the primitives its codec calls\<close>

text \<open>
  The fields of \<open>discord.Emoji\<close> as the generated handlers name and type them:
  \<open>ID\<close> (uint64), \<open>Name\<close> (string), \<open>RoleIDs\<close> (a slice of uint64, which may be nil),
  \<open>User\<close> (a struct held by value) and four booleans. The \<open>User\<close> struct is left as a type
  parameter.
\<close>

record 'u Emoji =
  ID :: "64 word"
  Name :: bytes
  RoleIDs :: "64 word list option"
  User :: 'u
  RequireColons :: bool
  Managed :: bool
  Animated :: bool
  Available :: bool

text \<open>
  The functions the generated code calls and that live outside the two source files:
  the lexer library's \<open>SkipField\<close>, \<open>CaptureField\<close>, \<open>NewFFLexer\<close>, the two key-folding
  comparisons and \<open>WriteJsonString\<close>, and the codecs of the identifier types and of \<open>User\<close>.
  They are parameters of the model. A decoder that works in place returns its error (if
  any) together with the value it leaves in the receiver. \<open>WriteJsonString\<close> and
  \<open>User_MarshalJSONBuf\<close> give the bytes they append to the buffer they are handed.
\<close>

record 'u prims =
  NewFFLexer :: "bytes \<Rightarrow> FFLexer"
  SkipField :: "FFTok \<Rightarrow> FFLexer \<Rightarrow> error + FFLexer"
  CaptureField :: "FFTok \<Rightarrow> FFLexer \<Rightarrow> error + (bytes \<times> FFLexer)"
  SimpleLetterEqualFold :: "bytes \<Rightarrow> bytes \<Rightarrow> bool"
  EqualFoldRight :: "bytes \<Rightarrow> bytes \<Rightarrow> bool"
  EmojiID_UnmarshalJSON :: "bytes \<Rightarrow> 64 word \<Rightarrow> error option \<times> 64 word"
  RoleID_UnmarshalJSON :: "bytes \<Rightarrow> 64 word \<Rightarrow> error option \<times> 64 word"
  User_UnmarshalJSONFFLexer ::
    "FFLexer \<Rightarrow> FFParseState \<Rightarrow> 'u \<Rightarrow> error option \<times> 'u \<times> FFLexer"
  EmojiID_MarshalJSON :: "64 word \<Rightarrow> error + bytes"
  RoleID_MarshalJSON :: "64 word \<Rightarrow> error + bytes"
  WriteJsonString :: "bytes \<Rightarrow> bytes"
  User_MarshalJSONBuf :: "'u \<Rightarrow> error option \<times> bytes"

section \<open>Wire keys and the key matcher (lines 147-161 and 215-335)\<close>

definition ffjKeyEmojiID :: bytes where "ffjKeyEmojiID = ''id''"
definition ffjKeyEmojiName :: bytes where "ffjKeyEmojiName = ''name''"
definition ffjKeyEmojiRoleIDs :: bytes where "ffjKeyEmojiRoleIDs = ''roles''"
definition ffjKeyEmojiUser :: bytes where "ffjKeyEmojiUser = ''user''"
definition ffjKeyEmojiRequireColons :: bytes where "ffjKeyEmojiRequireColons = ''require_colons''"
definition ffjKeyEmojiManaged :: bytes where "ffjKeyEmojiManaged = ''managed''"
definition ffjKeyEmojiAnimated :: bytes where "ffjKeyEmojiAnimated = ''animated''"
definition ffjKeyEmojiAvailable :: bytes where "ffjKeyEmojiAvailable = ''available''"

lemmas ffjKey_defs =
  ffjKeyEmojiID_def ffjKeyEmojiName_def ffjKeyEmojiRoleIDs_def ffjKeyEmojiUser_def
  ffjKeyEmojiRequireColons_def ffjKeyEmojiManaged_def ffjKeyEmojiAnimated_def
  ffjKeyEmojiAvailable_def

text \<open>
  The \<open>switch kn[0]\<close> of lines 222-282: the exact comparisons, reached through the first
  byte of the key. \<open>None\<close> means that control falls out of the switch.
\<close>

definition exact_switch :: "bytes \<Rightarrow> ffjtEmoji option" where
  "exact_switch kn = (case kn of
      [] \<Rightarrow> None
    | c # _ \<Rightarrow>
        if c = CHR ''a'' then
          (if ffjKeyEmojiAnimated = kn then Some ffjtEmojiAnimated
           else if ffjKeyEmojiAvailable = kn then Some ffjtEmojiAvailable
           else None)
        else if c = CHR ''i'' then
          (if ffjKeyEmojiID = kn then Some ffjtEmojiID else None)
        else if c = CHR ''m'' then
          (if ffjKeyEmojiManaged = kn then Some ffjtEmojiManaged else None)
        else if c = CHR ''n'' then
          (if ffjKeyEmojiName = kn then Some ffjtEmojiName else None)
        else if c = CHR ''r'' then
          (if ffjKeyEmojiRoleIDs = kn then Some ffjtEmojiRoleIDs
           else if ffjKeyEmojiRequireColons = kn then Some ffjtEmojiRequireColons
           else None)
        else if c = CHR ''u'' then
          (if ffjKeyEmojiUser = kn then Some ffjtEmojiUser else None)
        else None)"

text \<open>The chain of folding comparisons of lines 284-334, in the order of the source.\<close>

definition fold_chain :: "'u prims \<Rightarrow> bytes \<Rightarrow> ffjtEmoji" where
  "fold_chain P kn =
    (if SimpleLetterEqualFold P ffjKeyEmojiAvailable kn then ffjtEmojiAvailable
     else if SimpleLetterEqualFold P ffjKeyEmojiAnimated kn then ffjtEmojiAnimated
     else if SimpleLetterEqualFold P ffjKeyEmojiManaged kn then ffjtEmojiManaged
     else if EqualFoldRight P ffjKeyEmojiRequireColons kn then ffjtEmojiRequireColons
     else if EqualFoldRight P ffjKeyEmojiUser kn then ffjtEmojiUser
     else if EqualFoldRight P ffjKeyEmojiRoleIDs kn then ffjtEmojiRoleIDs
     else if SimpleLetterEqualFold P ffjKeyEmojiName kn then ffjtEmojiName
     else if SimpleLetterEqualFold P ffjKeyEmojiID kn then ffjtEmojiID
     else ffjtEmojinosuchkey)"

text \<open>The value given to \<open>currentKey\<close> for the key bytes \<open>kn\<close> (lines 215-335).\<close>

definition match_key :: "'u prims \<Rightarrow> bytes \<Rightarrow> ffjtEmoji" where
  "match_key P kn =
    (if length kn \<le> 0 then ffjtEmojinosuchkey
     else case exact_switch kn of
        Some k \<Rightarrow> k
      | None \<Rightarrow> fold_chain P kn)"

section \<open>The decoder (lines 164-687)\<close>

text \<open>The exits \<open>wantedvalue\<close>, \<open>wrongtokenerror\<close> and \<open>tokerror\<close> (lines 671-683).\<close>

definition wantedvalue :: "FFTok \<Rightarrow> error" where
  "wantedvalue tok = WrapErr (WantedValueToken tok)"

definition wrongtokenerror :: "FFTok \<Rightarrow> FFTok \<Rightarrow> FFLexer \<Rightarrow> error" where
  "wrongtokenerror wantedTok tok fs = WrapErr (WantedToken wantedTok tok (Output fs))"

definition tokerror :: "FFLexer \<Rightarrow> error" where
  "tokerror fs = (case BigError fs of
      Some e \<Rightarrow> WrapErr e
    | None \<Rightarrow> (case Error fs of
        Some e \<Rightarrow> WrapErr e
      | None \<Rightarrow> Panic_unreachable))"

text \<open>
  A handler works on the receiver \<open>j\<close> in place: its result is the error it returns
  (if any), the receiver as it leaves it, and the lexer.
\<close>

type_synonym 'u outcome = "error option \<times> 'u Emoji \<times> FFLexer"

definition handle_ID :: "'u prims \<Rightarrow> FFTok \<Rightarrow> FFLexer \<Rightarrow> 'u Emoji \<Rightarrow> 'u outcome" where
  "handle_ID P tok fs j =
    (if tok = FFTok_null then (None, j, fs)
     else case CaptureField P tok fs of
        Inl err \<Rightarrow> (Some (WrapErr err), j, fs)
      | Inr (tbuf, fs') \<Rightarrow>
          (case EmojiID_UnmarshalJSON P tbuf (ID j) of
             (Some err, v) \<Rightarrow> (Some (WrapErr err), j\<lparr>ID := v\<rparr>, fs')
           | (None, v) \<Rightarrow> (None, j\<lparr>ID := v\<rparr>, fs')))"

definition handle_Name :: "FFTok \<Rightarrow> FFLexer \<Rightarrow> 'u Emoji \<Rightarrow> 'u outcome" where
  "handle_Name tok fs j =
    (if tok \<noteq> FFTok_string \<and> tok \<noteq> FFTok_null
     then (Some (WrapErr (CannotUnmarshal tok ''string'')), j, fs)
     else if tok = FFTok_null then (None, j, fs)
     else (None, j\<lparr>Name := Output fs\<rparr>, fs))"

text \<open>
  The four boolean handlers (lines 531-669) are the same code for four fields;
  \<open>assign\<close> is the assignment to the field.
\<close>

definition handle_bool ::
  "('u Emoji \<Rightarrow> bool \<Rightarrow> 'u Emoji) \<Rightarrow> FFTok \<Rightarrow> FFLexer \<Rightarrow> 'u Emoji \<Rightarrow> 'u outcome" where
  "handle_bool assign tok fs j =
    (if tok \<noteq> FFTok_bool \<and> tok \<noteq> FFTok_null
     then (Some (WrapErr (CannotUnmarshal tok ''bool'')), j, fs)
     else if tok = FFTok_null then (None, j, fs)
     else let tmpb = Output fs in
       if ''true'' = tmpb then (None, assign j True, fs)
       else if ''false'' = tmpb then (None, assign j False, fs)
       else (Some (WrapErr UnexpectedBoolBytes), j, fs))"

definition handle_RequireColons :: "FFTok \<Rightarrow> FFLexer \<Rightarrow> 'u Emoji \<Rightarrow> 'u outcome" where
  "handle_RequireColons = handle_bool (\<lambda>j b. j\<lparr>RequireColons := b\<rparr>)"

definition handle_Managed :: "FFTok \<Rightarrow> FFLexer \<Rightarrow> 'u Emoji \<Rightarrow> 'u outcome" where
  "handle_Managed = handle_bool (\<lambda>j b. j\<lparr>Managed := b\<rparr>)"

definition handle_Animated :: "FFTok \<Rightarrow> FFLexer \<Rightarrow> 'u Emoji \<Rightarrow> 'u outcome" where
  "handle_Animated = handle_bool (\<lambda>j b. j\<lparr>Animated := b\<rparr>)"

definition handle_Available :: "FFTok \<Rightarrow> FFLexer \<Rightarrow> 'u Emoji \<Rightarrow> 'u outcome" where
  "handle_Available = handle_bool (\<lambda>j b. j\<lparr>Available := b\<rparr>)"

definition handle_User :: "'u prims \<Rightarrow> FFTok \<Rightarrow> FFLexer \<Rightarrow> 'u Emoji \<Rightarrow> 'u outcome" where
  "handle_User P tok fs j =
    (if tok = FFTok_null then (None, j, fs)
     else case User_UnmarshalJSONFFLexer P fs FFParse_want_key (User j) of
        (Some err, u, fs') \<Rightarrow> (Some err, j\<lparr>User := u\<rparr>, fs')
      | (None, u, fs') \<Rightarrow> (None, j\<lparr>User := u\<rparr>, fs'))"

text \<open>Go's \<open>append(s, v)\<close> on a slice that may be nil.\<close>

definition append_slice :: "'a list option \<Rightarrow> 'a \<Rightarrow> 'a list option" where
  "append_slice s v = Some ((case s of None \<Rightarrow> [] | Some xs \<Rightarrow> xs) @ [v])"

text \<open>
  The element loop of \<open>handle_RoleIDs\<close> (lines 458-504). \<open>roles\<close> is \<open>j.RoleIDs\<close>, which
  the loop appends to. Nothing in the loop bounds the number of iterations, so the loop
  is a partial function: \<open>None\<close> is a run that does not return.
\<close>

partial_function (option) RoleIDs_loop ::
  "'u prims \<Rightarrow> bool \<Rightarrow> FFLexer \<Rightarrow> 'u Emoji \<Rightarrow> 'u outcome option" where
  "RoleIDs_loop P wantVal fs0 j =
    (case Scan fs0 of (tok, fs) \<Rightarrow>
      if tok = FFTok_error then Some (Some (tokerror fs), j, fs)
      else if tok = FFTok_right_brace then Some (None, j, fs)
      else if tok = FFTok_comma then
        (if wantVal then Some (Some (WrapErr (WantedValueToken tok)), j, fs)
         else RoleIDs_loop P wantVal fs j)
      else if tok = FFTok_null then
        RoleIDs_loop P False fs (j\<lparr>RoleIDs := append_slice (RoleIDs j) 0\<rparr>)
      else case CaptureField P tok fs of
          Inl err \<Rightarrow> Some (Some (WrapErr err), j, fs)
        | Inr (tbuf, fs') \<Rightarrow>
            (case RoleID_UnmarshalJSON P tbuf 0 of
               (Some err, v) \<Rightarrow> Some (Some (WrapErr err), j, fs')
             | (None, v) \<Rightarrow>
                 RoleIDs_loop P False fs'
                   (j\<lparr>RoleIDs := append_slice (RoleIDs j) v\<rparr>)))"

declare RoleIDs_loop.simps [code]

definition handle_RoleIDs ::
  "'u prims \<Rightarrow> FFTok \<Rightarrow> FFLexer \<Rightarrow> 'u Emoji \<Rightarrow> 'u outcome option" where
  "handle_RoleIDs P tok fs j =
    (if tok \<noteq> FFTok_left_brace \<and> tok \<noteq> FFTok_null
     then Some (Some (WrapErr (CannotUnmarshal tok [])), j, fs)
     else if tok = FFTok_null then Some (None, j\<lparr>RoleIDs := None\<rparr>, fs)
     else RoleIDs_loop P True fs (j\<lparr>RoleIDs := Some []\<rparr>))"

text \<open>The test of line 346: the tokens that may start a value.\<close>

definition value_tok :: "FFTok \<Rightarrow> bool" where
  "value_tok tok \<longleftrightarrow>
     tok = FFTok_left_brace \<or> tok = FFTok_left_bracket \<or> tok = FFTok_integer \<or>
     tok = FFTok_double \<or> tok = FFTok_string \<or> tok = FFTok_bool \<or> tok = FFTok_null"

text \<open>
  One pass through the \<open>mainparse\<close> loop (lines 177-385), with the handler block it
  jumps to. The local variables \<open>currentKey\<close> and \<open>state\<close> are arguments. A pass either
  returns from the function (\<open>Return\<close>: an error exit, or \<open>done\<close> with no error) or goes
  back to the head of the loop with new values of the variables (\<open>Again\<close>). Every handler
  that ends without an error sets \<open>state = FFParse_after_value\<close> and jumps back to
  \<open>mainparse\<close>.
\<close>

datatype 'u flow =
    Return "'u outcome"
  | Again ffjtEmoji FFParseState FFLexer "'u Emoji"

definition after_handler :: "ffjtEmoji \<Rightarrow> 'u outcome \<Rightarrow> 'u flow" where
  "after_handler currentKey r = (case r of
      (Some err, j', fs') \<Rightarrow> Return (Some err, j', fs')
    | (None, j', fs') \<Rightarrow> Again currentKey FFParse_after_value fs' j')"

definition mainparse_pass ::
  "'u prims \<Rightarrow> ffjtEmoji \<Rightarrow> FFParseState \<Rightarrow> FFLexer \<Rightarrow> 'u Emoji \<Rightarrow> 'u flow option" where
  "mainparse_pass P currentKey state fs0 j =
    (case Scan fs0 of (tok, fs) \<Rightarrow>
      if tok = FFTok_error then Some (Return (Some (tokerror fs), j, fs))
      else case state of
        FFParse_map_start \<Rightarrow>
          if tok \<noteq> FFTok_left_bracket
          then Some (Return (Some (wrongtokenerror FFTok_left_bracket tok fs), j, fs))
          else Some (Again currentKey FFParse_want_key fs j)
      | FFParse_after_value \<Rightarrow>
          if tok = FFTok_comma then Some (Again currentKey FFParse_want_key fs j)
          else if tok = FFTok_right_bracket then Some (Return (None, j, fs))
          else Some (Return (Some (wrongtokenerror FFTok_comma tok fs), j, fs))
      | FFParse_want_key \<Rightarrow>
          if tok = FFTok_right_bracket then Some (Return (None, j, fs))
          else if tok \<noteq> FFTok_string
          then Some (Return (Some (wrongtokenerror FFTok_string tok fs), j, fs))
          else Some (Again (match_key P (Output fs)) FFParse_want_colon fs j)
      | FFParse_want_colon \<Rightarrow>
          if tok \<noteq> FFTok_colon
          then Some (Return (Some (wrongtokenerror FFTok_colon tok fs), j, fs))
          else Some (Again currentKey FFParse_want_value fs j)
      | FFParse_want_value \<Rightarrow>
          if value_tok tok then
            (case currentKey of
               ffjtEmojiID \<Rightarrow> Some (after_handler currentKey (handle_ID P tok fs j))
             | ffjtEmojiName \<Rightarrow> Some (after_handler currentKey (handle_Name tok fs j))
             | ffjtEmojiRoleIDs \<Rightarrow>
                 map_option (after_handler currentKey) (handle_RoleIDs P tok fs j)
             | ffjtEmojiUser \<Rightarrow> Some (after_handler currentKey (handle_User P tok fs j))
             | ffjtEmojiRequireColons \<Rightarrow>
                 Some (after_handler currentKey (handle_RequireColons tok fs j))
             | ffjtEmojiManaged \<Rightarrow>
                 Some (after_handler currentKey (handle_Managed tok fs j))
             | ffjtEmojiAnimated \<Rightarrow>
                 Some (after_handler currentKey (handle_Animated tok fs j))
             | ffjtEmojiAvailable \<Rightarrow>
                 Some (after_handler currentKey (handle_Available tok fs j))
             | ffjtEmojinosuchkey \<Rightarrow>
                 (case SkipField P tok fs of
                    Inl err \<Rightarrow> Some (Return (Some (WrapErr err), j, fs))
                  | Inr fs' \<Rightarrow> Some (Again currentKey FFParse_after_value fs' j))
             | ffjtEmojibase \<Rightarrow> Some (Again currentKey state fs j))
          else Some (Return (Some (wantedvalue tok), j, fs)))"

text \<open>
  The loop itself. It ends only through a \<open>Return\<close>; \<open>None\<close> is a run that does not
  return.
\<close>

partial_function (option) mainparse ::
  "'u prims \<Rightarrow> ffjtEmoji \<Rightarrow> FFParseState \<Rightarrow> FFLexer \<Rightarrow> 'u Emoji \<Rightarrow> 'u outcome option" where
  "mainparse P currentKey state fs j =
    (case mainparse_pass P currentKey state fs j of
       None \<Rightarrow> None
     | Some (Return r) \<Rightarrow> Some r
     | Some (Again currentKey' state' fs' j') \<Rightarrow> mainparse P currentKey' state' fs' j')"

declare mainparse.simps [code]

text \<open>\<open>UnmarshalJSONFFLexer\<close> (line 170) enters the loop with \<open>currentKey = ffjtEmojibase\<close>.\<close>

definition UnmarshalJSONFFLexer ::
  "'u prims \<Rightarrow> FFLexer \<Rightarrow> FFParseState \<Rightarrow> 'u Emoji \<Rightarrow> 'u outcome option" where
  "UnmarshalJSONFFLexer P fs state j = mainparse P ffjtEmojibase state fs j"

text \<open>
  \<open>UnmarshalJSON\<close> (line 164): the error returned (if any) and the receiver after the call.
\<close>

definition UnmarshalJSON ::
  "'u prims \<Rightarrow> bytes \<Rightarrow> 'u Emoji \<Rightarrow> (error option \<times> 'u Emoji) option" where
  "UnmarshalJSON P input j =
    map_option (\<lambda>(err, j', fs). (err, j'))
      (UnmarshalJSONFFLexer P (NewFFLexer P input) FFParse_map_start j)"

section \<open>The encoder (lines 13-124)\<close>

text \<open>\<open>buf.Rewind(n)\<close> takes the last \<open>n\<close> bytes off the buffer.\<close>

definition Rewind :: "nat \<Rightarrow> bytes \<Rightarrow> bytes" where
  "Rewind n buf = take (length buf - n) buf"

text \<open>
  The loop of lines 55-69 over the elements of \<open>j.RoleIDs\<close>, from index \<open>i\<close> on. The
  result is the error returned (if any) and the buffer.
\<close>

fun write_RoleIDs :: "'u prims \<Rightarrow> nat \<Rightarrow> 64 word list \<Rightarrow> bytes \<Rightarrow> error option \<times> bytes" where
  "write_RoleIDs P i [] buf = (None, buf)"
| "write_RoleIDs P i (v # vs) buf =
    (let buf1 = (if i \<noteq> 0 then buf @ '','' else buf) in
     case RoleID_MarshalJSON P v of
       Inl err \<Rightarrow> (Some err, buf1)
     | Inr obj \<Rightarrow> write_RoleIDs P (i + 1) vs (buf1 @ obj))"

text \<open>Lines 51-75: the \<open>roles\<close> member, written only when the slice has elements.\<close>

definition write_roles_member ::
  "'u prims \<Rightarrow> 64 word list option \<Rightarrow> bytes \<Rightarrow> error option \<times> bytes" where
  \<open>write_roles_member P roles buf =
    (if length (case roles of None \<Rightarrow> [] | Some vs \<Rightarrow> vs) \<noteq> 0 then
       (let buf1 = buf @ ''"roles":'' in
        case roles of
          Some vs \<Rightarrow>
            (case write_RoleIDs P 0 vs (buf1 @ ''['') of
               (Some err, buf2) \<Rightarrow> (Some err, buf2)
             | (None, buf2) \<Rightarrow> (None, buf2 @ '']'' @ '',''))
        | None \<Rightarrow> (None, buf1 @ ''null'' @ '',''))
     else (None, buf))\<close>

text \<open>Lines 89-120: a boolean member is written only when the field is not false.\<close>

definition write_bool_member :: "bytes \<Rightarrow> bool \<Rightarrow> bytes \<Rightarrow> bytes" where
  \<open>write_bool_member key b buf =
    (if b \<noteq> False then
       (if b then buf @ ''"'' @ key @ ''":true'' else buf @ ''"'' @ key @ ''":false'') @ '',''
     else buf)\<close>

text \<open>
  \<open>MarshalJSONBuf\<close> (lines 28-124). The receiver is a pointer, \<open>None\<close> when it is nil.
  The result is the error returned (if any) and the buffer after the call.
\<close>

definition MarshalJSONBuf :: "'u prims \<Rightarrow> 'u Emoji option \<Rightarrow> bytes \<Rightarrow> error option \<times> bytes" where
  \<open>MarshalJSONBuf P jp buf0 = (case jp of
      None \<Rightarrow> (None, buf0 @ ''null'')
    | Some j \<Rightarrow>
       (let buf1 = buf0 @ ''{ "id":'' in
        case EmojiID_MarshalJSON P (ID j) of
          Inl err \<Rightarrow> (Some err, buf1)
        | Inr obj \<Rightarrow>
           (let buf2 = buf1 @ obj @ '',"name":'' @ WriteJsonString P (Name j) @ '','' in
            case write_roles_member P (RoleIDs j) buf2 of
              (Some err, buf3) \<Rightarrow> (Some err, buf3)
            | (None, buf3) \<Rightarrow>
               (case User_MarshalJSONBuf P (User j) of
                  (Some err, ub) \<Rightarrow> (Some err, buf3 @ ''"user":'' @ ub)
                | (None, ub) \<Rightarrow>
                   (let buf4 = buf3 @ ''"user":'' @ ub @ '','';
                        buf5 = write_bool_member ''require_colons'' (RequireColons j) buf4;
                        buf6 = write_bool_member ''managed'' (Managed j) buf5;
                        buf7 = write_bool_member ''animated'' (Animated j) buf6;
                        buf8 = write_bool_member ''available'' (Available j) buf7
                    in (None, Rewind 1 buf8 @ ''}''))))))\<close>

text \<open>\<open>MarshalJSON\<close> (lines 14-25): a fresh buffer, whose bytes are returned.\<close>

definition MarshalJSON :: "'u prims \<Rightarrow> 'u Emoji option \<Rightarrow> error + bytes" where
  "MarshalJSON P jp = (case jp of
      None \<Rightarrow> Inr ([] @ ''null'')
    | Some j \<Rightarrow>
       (case MarshalJSONBuf P jp [] of
          (Some err, buf) \<Rightarrow> Inl err
        | (None, buf) \<Rightarrow> Inr buf))"

section \<open>A reference instance of the library\<close>

text \<open>
  To run the codec on concrete inputs the parameters need values. This section gives a
  small instance: the two folding comparisons of the lexer library, a tokenizer for the
  JSON subset the Emoji encoder writes, \<open>SkipField\<close> and \<open>CaptureField\<close> on the token
  stream, identifiers written as quoted decimal numbers, and a \<open>User\<close> that is just a
  user name. The theorems below hold for every value of the parameters; the instance is
  used where a statement is evaluated on a concrete input.
\<close>

definition caseMask :: "8 word" where "caseMask = NOT 0x20"

definition ref_SimpleLetterEqualFold :: "bytes \<Rightarrow> bytes \<Rightarrow> bool" where
  "ref_SimpleLetterEqualFold s t \<longleftrightarrow>
     length s = length t \<and>
     list_all2 (\<lambda>b c. (of_char b :: 8 word) AND caseMask = of_char c AND caseMask) s t"

fun ref_EqualFoldRight :: "bytes \<Rightarrow> bytes \<Rightarrow> bool" where
  "ref_EqualFoldRight [] t = (t = [])"
| "ref_EqualFoldRight (sb # s) [] = False"
| "ref_EqualFoldRight (sb # s) (tb # t) =
    (if (of_char tb :: nat) < 128 then
       (if sb \<noteq> tb then
          (let sbUpper = (of_char sb :: 8 word) AND caseMask in
           if 65 \<le> sbUpper \<and> sbUpper \<le> 90 then
             (if sbUpper \<noteq> (of_char tb AND caseMask) then False else ref_EqualFoldRight s t)
           else False)
        else ref_EqualFoldRight s t)
     else if sb = CHR ''s'' \<or> sb = CHR ''S'' then
       (case tb # t of
          c1 # c2 # t' \<Rightarrow> c1 = CHR 0xC5 \<and> c2 = CHR 0xBF \<and> ref_EqualFoldRight s t'
        | _ \<Rightarrow> False)
     else if sb = CHR ''k'' \<or> sb = CHR ''K'' then
       (case tb # t of
          c1 # c2 # c3 # t' \<Rightarrow>
            c1 = CHR 0xE2 \<and> c2 = CHR 0x84 \<and> c3 = CHR 0xAA \<and> ref_EqualFoldRight s t'
        | _ \<Rightarrow> False)
     else False)"


fun scan_string :: "bytes \<Rightarrow> (bytes \<times> bytes) option" where
  "scan_string [] = None"
| "scan_string (c # cs) =
    (if c = CHR 0x22 then Some ([], cs)
     else if c = CHR 0x5C then
       (case cs of
          [] \<Rightarrow> None
        | d # ds \<Rightarrow> map_option (\<lambda>(s, r). (d # s, r)) (scan_string ds))
     else map_option (\<lambda>(s, r). (c # s, r)) (scan_string cs))"

lemma scan_string_length: "scan_string cs = Some (s, r) \<Longrightarrow> length r < length cs"
proof (induction cs arbitrary: s r rule: scan_string.induct)
  case 1
  then show ?case by simp
next
  case (2 c cs)
  then show ?case
    by (auto split: if_splits list.splits) force+
qed

definition is_digit :: "char \<Rightarrow> bool" where
  "is_digit c \<longleftrightarrow> 48 \<le> (of_char c :: nat) \<and> (of_char c :: nat) \<le> 57"

definition is_blank :: "char \<Rightarrow> bool" where
  "is_blank c \<longleftrightarrow> c = CHR '' '' \<or> c = CHR 0x09 \<or> c = CHR 0x0A \<or> c = CHR 0x0D"

function ref_lex :: "bytes \<Rightarrow> (FFTok \<times> bytes) list" where
  "ref_lex [] = []"
| "ref_lex (c # cs) =
    (if is_blank c then ref_lex cs
     else if c = CHR ''{'' then (FFTok_left_bracket, []) # ref_lex cs
     else if c = CHR ''}'' then (FFTok_right_bracket, []) # ref_lex cs
     else if c = CHR ''['' then (FFTok_left_brace, []) # ref_lex cs
     else if c = CHR '']'' then (FFTok_right_brace, []) # ref_lex cs
     else if c = CHR '':'' then (FFTok_colon, []) # ref_lex cs
     else if c = CHR '','' then (FFTok_comma, []) # ref_lex cs
     else if c = CHR 0x22 then
       (case scan_string cs of
          None \<Rightarrow> [(FFTok_error, [])]
        | Some (s, r) \<Rightarrow> (FFTok_string, s) # ref_lex r)
     else if is_digit c then
       (FFTok_integer, c # takeWhile is_digit cs) # ref_lex (dropWhile is_digit cs)
     else if take 4 (c # cs) = ''true'' then (FFTok_bool, ''true'') # ref_lex (drop 3 cs)
     else if take 5 (c # cs) = ''false'' then (FFTok_bool, ''false'') # ref_lex (drop 4 cs)
     else if take 4 (c # cs) = ''null'' then (FFTok_null, ''null'') # ref_lex (drop 3 cs)
     else [(FFTok_error, [])])"
  by pat_completeness auto
termination
proof (relation "measure length")
  fix c cs x2 x y
  assume "scan_string cs = Some x2" "(x, y) = x2"
  then show "(y, c # cs) \<in> measure length"
    using scan_string_length[of cs x y] by simp
next
  fix c cs
  show "(dropWhile is_digit cs, c # cs) \<in> measure length"
    by (simp add: le_imp_less_Suc length_dropWhile_le)
qed auto


text \<open>Skipping a nested value: the tokens up to the bracket that closes it.\<close>

fun skip_nested :: "nat \<Rightarrow> (FFTok \<times> bytes) list \<Rightarrow> (FFTok \<times> bytes) list option" where
  "skip_nested d [] = None"
| "skip_nested d ((tok, out) # rest) =
    (if tok = FFTok_left_brace \<or> tok = FFTok_left_bracket then skip_nested (Suc d) rest
     else if tok = FFTok_right_brace \<or> tok = FFTok_right_bracket then
       (case d of 0 \<Rightarrow> Some rest | Suc d' \<Rightarrow> skip_nested d' rest)
     else skip_nested d rest)"

definition ref_SkipField :: "FFTok \<Rightarrow> FFLexer \<Rightarrow> error + FFLexer" where
  "ref_SkipField tok fs =
    (if tok = FFTok_left_brace \<or> tok = FFTok_left_bracket then
       (case skip_nested 0 (pending fs) of
          None \<Rightarrow> Inl (LibError ''unexpected EOF'')
        | Some rest \<Rightarrow> Inr (fs\<lparr>pending := rest\<rparr>))
     else Inr fs)"

definition ref_WriteJsonString :: "bytes \<Rightarrow> bytes" where
  "ref_WriteJsonString s =
     CHR 0x22 # concat (map (\<lambda>c. if c = CHR 0x22 \<or> c = CHR 0x5C then [CHR 0x5C, c] else [c]) s)
       @ [CHR 0x22]"

definition ref_CaptureField :: "FFTok \<Rightarrow> FFLexer \<Rightarrow> error + (bytes \<times> FFLexer)" where
  "ref_CaptureField tok fs =
    (if tok = FFTok_string then Inr (ref_WriteJsonString (Output fs), fs)
     else if tok = FFTok_null then Inr (''null'', fs)
     else if tok = FFTok_bool \<or> tok = FFTok_integer \<or> tok = FFTok_double then Inr (Output fs, fs)
     else Inl (LibError ''capture''))"

fun decimal :: "nat \<Rightarrow> bytes" where
  "decimal n = (if n < 10 then [char_of (48 + n)]
                else decimal (n div 10) @ [char_of (48 + n mod 10)])"

definition ref_ID_MarshalJSON :: "64 word \<Rightarrow> error + bytes" where
  "ref_ID_MarshalJSON v = Inr (CHR 0x22 # decimal (unat v) @ [CHR 0x22])"

definition ref_ID_UnmarshalJSON :: "bytes \<Rightarrow> 64 word \<Rightarrow> error option \<times> 64 word" where
  "ref_ID_UnmarshalJSON b old =
    (let ds = filter (\<lambda>c. c \<noteq> CHR 0x22) b in
     if ds \<noteq> [] \<and> list_all is_digit ds
     then (None, of_nat (foldl (\<lambda>a c. 10 * a + (of_char c - 48)) 0 ds))
     else (Some (LibError ''snowflake''), old))"

definition ref_User_MarshalJSONBuf :: "bytes \<Rightarrow> error option \<times> bytes" where
  \<open>ref_User_MarshalJSONBuf u = (None, ''{"username":'' @ ref_WriteJsonString u @ ''}'')\<close>

definition ref_User_UnmarshalJSONFFLexer ::
  "FFLexer \<Rightarrow> FFParseState \<Rightarrow> bytes \<Rightarrow> error option \<times> bytes \<times> FFLexer" where
  "ref_User_UnmarshalJSONFFLexer fs state u =
    (case pending fs of
       (t1, k) # (t2, c) # (t3, v) # (t4, e) # rest \<Rightarrow>
         if t1 = FFTok_string \<and> k = ''username'' \<and> t2 = FFTok_colon \<and> t3 = FFTok_string \<and>
            t4 = FFTok_right_bracket
         then (None, v, fs\<lparr>pending := rest, Output := e\<rparr>)
         else (Some (LibError ''user''), u, fs)
     | _ \<Rightarrow> (Some (LibError ''user''), u, fs))"

definition ref_NewFFLexer :: "bytes \<Rightarrow> FFLexer" where
  "ref_NewFFLexer input = \<lparr>pending = ref_lex input, Output = [], BigError = None, Error = None\<rparr>"

definition ref_prims :: "bytes prims" where
  "ref_prims = \<lparr>
     NewFFLexer = ref_NewFFLexer,
     SkipField = ref_SkipField,
     CaptureField = ref_CaptureField,
     SimpleLetterEqualFold = ref_SimpleLetterEqualFold,
     EqualFoldRight = ref_EqualFoldRight,
     EmojiID_UnmarshalJSON = ref_ID_UnmarshalJSON,
     RoleID_UnmarshalJSON = ref_ID_UnmarshalJSON,
     User_UnmarshalJSONFFLexer = ref_User_UnmarshalJSONFFLexer,
     EmojiID_MarshalJSON = ref_ID_MarshalJSON,
     RoleID_MarshalJSON = ref_ID_MarshalJSON,
     WriteJsonString = ref_WriteJsonString,
     User_MarshalJSONBuf = ref_User_MarshalJSONBuf\<rparr>"

text \<open>A freshly allocated Emoji: every field has its zero value.\<close>

definition fresh :: "bytes Emoji" where
  "fresh = \<lparr>ID = 0, Name = [], RoleIDs = None, User = [],
            RequireColons = False, Managed = False, Animated = False, Available = False\<rparr>"

section \<open>Properties of the decoder\<close>

subsection \<open>One pass of the loop\<close>

lemma Scan_cons:
  "pending fs = (tok, out) # rest \<Longrightarrow> Scan fs = (tok, fs\<lparr>pending := rest, Output := out\<rparr>)"
  by (simp add: Scan_def)

lemma mainparse_Again:
  "mainparse_pass P k st fs j = Some (Again k' st' fs' j') \<Longrightarrow>
   mainparse P k st fs j = mainparse P k' st' fs' j'"
  by (subst mainparse.simps) simp

lemma mainparse_Return:
  "mainparse_pass P k st fs j = Some (Return r) \<Longrightarrow> mainparse P k st fs j = Some r"
  by (subst mainparse.simps) simp

lemma value_tok_not_error: "value_tok tok \<Longrightarrow> tok \<noteq> FFTok_error"
  by (auto simp: value_tok_def)

lemma pass_want_key_string:
  "pending fs = (FFTok_string, kn) # rest \<Longrightarrow>
   mainparse_pass P k FFParse_want_key fs j =
     Some (Again (match_key P kn) FFParse_want_colon (fs\<lparr>pending := rest, Output := kn\<rparr>) j)"
  by (simp add: mainparse_pass_def Scan_cons)

lemma pass_want_colon_colon:
  "pending fs = (FFTok_colon, c) # rest \<Longrightarrow>
   mainparse_pass P k FFParse_want_colon fs j =
     Some (Again k FFParse_want_value (fs\<lparr>pending := rest, Output := c\<rparr>) j)"
  by (simp add: mainparse_pass_def Scan_cons)

lemma pass_want_value_nosuchkey:
  "pending fs = (tok, out) # rest \<Longrightarrow> value_tok tok \<Longrightarrow>
   SkipField P tok (fs\<lparr>pending := rest, Output := out\<rparr>) = Inr fs' \<Longrightarrow>
   mainparse_pass P ffjtEmojinosuchkey FFParse_want_value fs j =
     Some (Again ffjtEmojinosuchkey FFParse_after_value fs' j)"
  by (simp add: mainparse_pass_def Scan_cons value_tok_not_error)

text \<open>
  A key, a colon and a value: the three passes that bring the loop from \<open>want_key\<close> to the
  handler of the key.
\<close>

lemma key_colon_passes:
  assumes "pending fs = (FFTok_string, kn) # (FFTok_colon, c) # rest"
  shows "mainparse P k FFParse_want_key fs j =
         mainparse P (match_key P kn) FFParse_want_value (fs\<lparr>pending := rest, Output := c\<rparr>) j"
proof -
  let ?fs1 = "fs\<lparr>pending := (FFTok_colon, c) # rest, Output := kn\<rparr>"
  have "mainparse P k FFParse_want_key fs j =
        mainparse P (match_key P kn) FFParse_want_colon ?fs1 j"
    by (rule mainparse_Again) (simp add: pass_want_key_string assms)
  also have "\<dots> = mainparse P (match_key P kn) FFParse_want_value
                     (?fs1\<lparr>pending := rest, Output := c\<rparr>) j"
    by (rule mainparse_Again) (simp add: pass_want_colon_colon)
  finally show ?thesis by simp
qed

lemma unknown_member_passes:
  assumes p: "pending fs = (FFTok_string, kn) # (FFTok_colon, c) # (tok, out) # rest"
    and k: "match_key P kn = ffjtEmojinosuchkey"
    and v: "value_tok tok"
    and s: "SkipField P tok (fs\<lparr>pending := rest, Output := out\<rparr>) = Inr fs'"
  shows "mainparse P k FFParse_want_key fs j =
         mainparse P ffjtEmojinosuchkey FFParse_after_value fs' j"
proof -
  let ?fs2 = "fs\<lparr>pending := (tok, out) # rest, Output := c\<rparr>"
  have "mainparse P k FFParse_want_key fs j =
        mainparse P ffjtEmojinosuchkey FFParse_want_value ?fs2 j"
    using key_colon_passes[OF p, of P k j] k by simp
  also have "\<dots> = mainparse P ffjtEmojinosuchkey FFParse_after_value fs' j"
    by (rule mainparse_Again) (rule pass_want_value_nosuchkey, use v s in simp_all)
  finally show ?thesis .
qed

text \<open>
  C2. A member whose key matches no field of Emoji is passed over: whatever token starts
  its value (a scalar, an object or an array), once \<open>SkipField\<close> has consumed the value
  the loop is in \<open>after_value\<close> with the receiver untouched, so that decoding the object
  gives what decoding goes on to give after the member.
\<close>

theorem unknown_key_ignored:
  assumes "pending fs = (FFTok_string, kn) # (FFTok_colon, c) # (tok, out) # rest"
    and "match_key P kn = ffjtEmojinosuchkey"
    and "value_tok tok"
    and "SkipField P tok (fs\<lparr>pending := rest, Output := out\<rparr>) = Inr fs'"
  shows "mainparse P k FFParse_want_key fs j =
         mainparse P ffjtEmojinosuchkey FFParse_after_value fs' j"
  using assms by (rule unknown_member_passes)

theorem unknown_key_ignored_witness:
  \<open>match_key ref_prims ''extra'' = ffjtEmojinosuchkey \<and>
   value_tok FFTok_left_bracket \<and>
   UnmarshalJSONFFLexer ref_prims
     (ref_NewFFLexer ''"extra":{"a":[1,{"b":null}]},"name":"x"}'') FFParse_want_key fresh =
   Some (None, fresh\<lparr>Name := ''x''\<rparr>,
         \<lparr>pending = [], Output = [], BigError = None, Error = None\<rparr>)\<close>
proof -
  let ?rest = "[(FFTok_string, ''a''), (FFTok_colon, []), (FFTok_left_brace, []),
     (FFTok_integer, ''1''), (FFTok_comma, []), (FFTok_left_bracket, []), (FFTok_string, ''b''),
     (FFTok_colon, []), (FFTok_null, ''null''), (FFTok_right_bracket, []),
     (FFTok_right_brace, []), (FFTok_right_bracket, []), (FFTok_comma, []),
     (FFTok_string, ''name''), (FFTok_colon, []), (FFTok_string, ''x''),
     (FFTok_right_bracket, [])]"
  let ?fs = \<open>ref_NewFFLexer ''"extra":{"a":[1,{"b":null}]},"name":"x"}''\<close>
  let ?fs' = "\<lparr>pending = [(FFTok_comma, []), (FFTok_string, ''name''), (FFTok_colon, []),
     (FFTok_string, ''x''), (FFTok_right_bracket, [])], Output = [], BigError = None,
     Error = None\<rparr>"
  have p: "pending ?fs =
      (FFTok_string, ''extra'') # (FFTok_colon, []) # (FFTok_left_bracket, []) # ?rest"
    by code_simp
  have k: "match_key ref_prims ''extra'' = ffjtEmojinosuchkey"
    by code_simp
  have v: "value_tok FFTok_left_bracket"
    by (simp add: value_tok_def)
  have s: "SkipField ref_prims FFTok_left_bracket (?fs\<lparr>pending := ?rest, Output := []\<rparr>) = Inr ?fs'"
    by code_simp
  have "mainparse ref_prims ffjtEmojibase FFParse_want_key ?fs fresh =
        mainparse ref_prims ffjtEmojinosuchkey FFParse_after_value ?fs' fresh"
    using unknown_key_ignored[OF p k v s] .
  moreover have "mainparse ref_prims ffjtEmojinosuchkey FFParse_after_value ?fs' fresh =
      Some (None, fresh\<lparr>Name := ''x''\<rparr>,
            \<lparr>pending = [], Output = [], BigError = None, Error = None\<rparr>)"
    by code_simp
  ultimately show ?thesis
    using k v by (simp add: UnmarshalJSONFFLexer_def)
qed

text \<open>
  C9. The empty key is classified as unknown before any comparison is made (so also
  when a folding comparison would accept it), and its member is passed over like that of
  any unknown key: no error, and the receiver is untouched.
\<close>

theorem empty_key_is_unknown:
  assumes "pending fs = (FFTok_string, []) # (FFTok_colon, c) # (tok, out) # rest"
    and "value_tok tok"
    and "SkipField P tok (fs\<lparr>pending := rest, Output := out\<rparr>) = Inr fs'"
  shows "match_key P [] = ffjtEmojinosuchkey \<and>
         mainparse P k FFParse_want_key fs j =
         mainparse P ffjtEmojinosuchkey FFParse_after_value fs' j"
proof -
  have k: "match_key P [] = ffjtEmojinosuchkey"
    by (simp add: match_key_def)
  from unknown_member_passes[OF assms(1) k assms(2) assms(3)] k show ?thesis
    by simp
qed

theorem empty_key_is_unknown_witness:
  \<open>value_tok FFTok_left_brace \<and>
   match_key (ref_prims\<lparr>SimpleLetterEqualFold := \<lambda>s t. True\<rparr>) [] = ffjtEmojinosuchkey \<and>
   UnmarshalJSONFFLexer (ref_prims\<lparr>SimpleLetterEqualFold := \<lambda>s t. True\<rparr>)
     (ref_NewFFLexer ''"":[1,2],"managed":true}'') FFParse_want_key fresh =
   Some (None, fresh\<lparr>Managed := True\<rparr>,
         \<lparr>pending = [], Output = [], BigError = None, Error = None\<rparr>)\<close>
proof -
  let ?P = "ref_prims\<lparr>SimpleLetterEqualFold := \<lambda>s t. True\<rparr>"
  let ?rest = "[(FFTok_integer, ''1''), (FFTok_comma, []), (FFTok_integer, ''2''),
     (FFTok_right_brace, []), (FFTok_comma, []), (FFTok_string, ''managed''),
     (FFTok_colon, []), (FFTok_bool, ''true''), (FFTok_right_bracket, [])]"
  let ?fs = \<open>ref_NewFFLexer ''"":[1,2],"managed":true}''\<close>
  let ?fs' = "\<lparr>pending = [(FFTok_comma, []), (FFTok_string, ''managed''), (FFTok_colon, []),
     (FFTok_bool, ''true''), (FFTok_right_bracket, [])], Output = [], BigError = None,
     Error = None\<rparr>"
  have p: "pending ?fs = (FFTok_string, []) # (FFTok_colon, []) # (FFTok_left_brace, []) # ?rest"
    by code_simp
  have v: "value_tok FFTok_left_brace"
    by (simp add: value_tok_def)
  have s: "SkipField ?P FFTok_left_brace (?fs\<lparr>pending := ?rest, Output := []\<rparr>) = Inr ?fs'"
    by code_simp
  have "match_key ?P [] = ffjtEmojinosuchkey \<and>
        mainparse ?P ffjtEmojibase FFParse_want_key ?fs fresh =
        mainparse ?P ffjtEmojinosuchkey FFParse_after_value ?fs' fresh"
    using empty_key_is_unknown[OF p v s] .
  moreover have "mainparse ?P ffjtEmojinosuchkey FFParse_after_value ?fs' fresh =
      Some (None, fresh\<lparr>Managed := True\<rparr>,
            \<lparr>pending = [], Output = [], BigError = None, Error = None\<rparr>)"
    by code_simp
  ultimately show ?thesis
    using v by (simp add: UnmarshalJSONFFLexer_def)
qed

subsection \<open>The key matcher\<close>

text \<open>
  The wire key of every field, and the matcher in the words of the specification: the
  field whose wire key is exactly the incoming key, else the first field whose folding
  comparison accepts the key, else the unknown key.
\<close>

definition wire_keys :: "(bytes \<times> ffjtEmoji) list" where
  "wire_keys =
    [(ffjKeyEmojiID, ffjtEmojiID), (ffjKeyEmojiName, ffjtEmojiName),
     (ffjKeyEmojiRoleIDs, ffjtEmojiRoleIDs), (ffjKeyEmojiUser, ffjtEmojiUser),
     (ffjKeyEmojiRequireColons, ffjtEmojiRequireColons), (ffjKeyEmojiManaged, ffjtEmojiManaged),
     (ffjKeyEmojiAnimated, ffjtEmojiAnimated), (ffjKeyEmojiAvailable, ffjtEmojiAvailable)]"

definition fold_comparisons :: "'u prims \<Rightarrow> (ffjtEmoji \<times> (bytes \<Rightarrow> bool)) list" where
  "fold_comparisons P =
    [(ffjtEmojiAvailable, SimpleLetterEqualFold P ffjKeyEmojiAvailable),
     (ffjtEmojiAnimated, SimpleLetterEqualFold P ffjKeyEmojiAnimated),
     (ffjtEmojiManaged, SimpleLetterEqualFold P ffjKeyEmojiManaged),
     (ffjtEmojiRequireColons, EqualFoldRight P ffjKeyEmojiRequireColons),
     (ffjtEmojiUser, EqualFoldRight P ffjKeyEmojiUser),
     (ffjtEmojiRoleIDs, EqualFoldRight P ffjKeyEmojiRoleIDs),
     (ffjtEmojiName, SimpleLetterEqualFold P ffjKeyEmojiName),
     (ffjtEmojiID, SimpleLetterEqualFold P ffjKeyEmojiID)]"

definition spec_match_key :: "'u prims \<Rightarrow> bytes \<Rightarrow> ffjtEmoji" where
  "spec_match_key P kn =
    (case map_of wire_keys kn of
       Some k \<Rightarrow> k
     | None \<Rightarrow>
        (case find (\<lambda>(k, accepts). accepts kn) (fold_comparisons P) of
           Some (k, accepts) \<Rightarrow> k
         | None \<Rightarrow> ffjtEmojinosuchkey))"

lemma exact_switch_wire_keys: "exact_switch kn = map_of wire_keys kn"
  by (cases kn) (auto simp: exact_switch_def wire_keys_def ffjKey_defs)

lemma fold_chain_find:
  "fold_chain P kn =
    (case find (\<lambda>(k, accepts). accepts kn) (fold_comparisons P) of
       Some (k, accepts) \<Rightarrow> k
     | None \<Rightarrow> ffjtEmojinosuchkey)"
  by (simp add: fold_chain_def fold_comparisons_def)

text \<open>
  C3. For a key that is not empty the matcher of the source is the matcher of the
  specification: exact match first, folding comparison as the fallback, unknown
  otherwise. So a key that is exactly a wire key always gets the field of that wire key,
  whatever the folding comparisons would say. The empty key is unknown.
\<close>

theorem key_matching_order:
  "(kn \<noteq> [] \<longrightarrow> match_key P kn = spec_match_key P kn) \<and>
   (map_of wire_keys kn = Some k \<longrightarrow> match_key P kn = k) \<and>
   (map_of wire_keys kn = None \<and> kn \<noteq> [] \<and> (\<forall>(k', accepts) \<in> set (fold_comparisons P). \<not> accepts kn)
      \<longrightarrow> match_key P kn = ffjtEmojinosuchkey) \<and>
   match_key P [] = ffjtEmojinosuchkey"
proof -
  have a: "kn \<noteq> [] \<Longrightarrow> match_key P kn = spec_match_key P kn"
    by (simp add: match_key_def spec_match_key_def exact_switch_wire_keys fold_chain_find
        split: option.split)
  have b: "map_of wire_keys kn = Some k \<Longrightarrow> match_key P kn = k"
  proof -
    assume h: "map_of wire_keys kn = Some k"
    then have "kn \<noteq> []"
      by (auto simp: wire_keys_def ffjKey_defs split: if_splits)
    with h show ?thesis
      by (simp add: match_key_def exact_switch_wire_keys)
  qed
  have c: "map_of wire_keys kn = None \<and> kn \<noteq> [] \<and>
      (\<forall>(k', accepts) \<in> set (fold_comparisons P). \<not> accepts kn) \<Longrightarrow>
      match_key P kn = ffjtEmojinosuchkey"
    by (simp add: match_key_def exact_switch_wire_keys fold_chain_def fold_comparisons_def)
  have d: "match_key P [] = ffjtEmojinosuchkey"
    by (simp add: match_key_def)
  from a b c d show ?thesis by blast
qed

theorem key_matching_order_witness:
  "match_key (ref_prims\<lparr>SimpleLetterEqualFold := \<lambda>s t. True\<rparr>) ''name'' = ffjtEmojiName \<and>
   map_of wire_keys ''name'' = Some ffjtEmojiName \<and>
   match_key ref_prims ''NAME'' = ffjtEmojiName \<and>
   spec_match_key ref_prims ''NAME'' = ffjtEmojiName \<and>
   map_of wire_keys ''nam'' = None \<and>
   match_key ref_prims ''nam'' = ffjtEmojinosuchkey"
proof -
  let ?P = "ref_prims\<lparr>SimpleLetterEqualFold := \<lambda>s t. True\<rparr>"
  have 1: "map_of wire_keys ''name'' = Some ffjtEmojiName"
    by code_simp
  have 2: "spec_match_key ref_prims ''NAME'' = ffjtEmojiName"
    by code_simp
  have 3: "map_of wire_keys ''nam'' = None"
    by code_simp
  have 4: "\<forall>(k', accepts) \<in> set (fold_comparisons ref_prims). \<not> accepts ''nam''"
    by code_simp
  have "match_key ?P ''name'' = ffjtEmojiName"
    using key_matching_order[of "''name''" ?P ffjtEmojiName] 1 by blast
  moreover have "match_key ref_prims ''NAME'' = spec_match_key ref_prims ''NAME''"
    using key_matching_order[of "''NAME''" ref_prims] by blast
  moreover have "match_key ref_prims ''nam'' = ffjtEmojinosuchkey"
    using key_matching_order[of "''nam''" ref_prims] 3 4 by blast
  ultimately show ?thesis using 1 2 3 by simp
qed

subsection \<open>The boolean handlers\<close>

lemma handle_bool_mismatch:
  "tok \<noteq> FFTok_bool \<Longrightarrow> tok \<noteq> FFTok_null \<Longrightarrow>
   handle_bool assign tok fs j = (Some (WrapErr (CannotUnmarshal tok ''bool'')), j, fs)"
  by (simp add: handle_bool_def)

lemma handle_bool_malformed:
  "Output fs \<noteq> ''true'' \<Longrightarrow> Output fs \<noteq> ''false'' \<Longrightarrow>
   handle_bool assign FFTok_bool fs j = (Some (WrapErr UnexpectedBoolBytes), j, fs)"
  by (auto simp: handle_bool_def Let_def)

lemma handle_bool_null: "handle_bool assign FFTok_null fs j = (None, j, fs)"
  by (simp add: handle_bool_def)

text \<open>The pass that reaches the handler of a boolean field.\<close>

definition bool_handler ::
  "ffjtEmoji \<Rightarrow> FFTok \<Rightarrow> FFLexer \<Rightarrow> 'u Emoji \<Rightarrow> 'u outcome" where
  "bool_handler key =
    (if key = ffjtEmojiRequireColons then handle_RequireColons
     else if key = ffjtEmojiManaged then handle_Managed
     else if key = ffjtEmojiAnimated then handle_Animated
     else handle_Available)"

definition bool_keys :: "ffjtEmoji set" where
  "bool_keys = {ffjtEmojiRequireColons, ffjtEmojiManaged, ffjtEmojiAnimated, ffjtEmojiAvailable}"

lemma pass_want_value_bool:
  assumes "key \<in> bool_keys" and "pending fs0 = (tok, out) # rest" and "value_tok tok"
  shows "mainparse_pass P key FFParse_want_value fs0 j =
         Some (after_handler key (bool_handler key tok (fs0\<lparr>pending := rest, Output := out\<rparr>) j))"
  using assms
  by (auto simp: bool_keys_def mainparse_pass_def Scan_cons value_tok_not_error bool_handler_def)

lemma bool_handler_unfold:
  "key \<in> bool_keys \<Longrightarrow> \<exists>assign. bool_handler key = handle_bool assign"
  by (auto simp: bool_keys_def bool_handler_def handle_RequireColons_def handle_Managed_def
      handle_Animated_def handle_Available_def)

text \<open>
  C4. For each of the four boolean fields: the handler answers a token that is neither a
  boolean nor null with the type mismatch, and so does the decoder for every token that
  can start a value; a boolean token whose captured bytes are neither \<open>true\<close> nor \<open>false\<close>
  gives the malformed-scalar error; null is accepted and the receiver stays as it is. An
  error is returned at once, with the receiver unchanged by the handler.
\<close>

theorem bool_field_errors:
  assumes "key \<in> bool_keys" and "pending fs0 = (tok, out) # rest"
  shows
    "(tok \<noteq> FFTok_bool \<and> tok \<noteq> FFTok_null \<longrightarrow>
        bool_handler key tok fs j = (Some (WrapErr (CannotUnmarshal tok ''bool'')), j, fs)) \<and>
     (value_tok tok \<and> tok \<noteq> FFTok_bool \<and> tok \<noteq> FFTok_null \<longrightarrow>
        mainparse P key FFParse_want_value fs0 j =
        Some (Some (WrapErr (CannotUnmarshal tok ''bool'')), j,
              fs0\<lparr>pending := rest, Output := out\<rparr>)) \<and>
     (tok = FFTok_bool \<and> out \<noteq> ''true'' \<and> out \<noteq> ''false'' \<longrightarrow>
        mainparse P key FFParse_want_value fs0 j =
        Some (Some (WrapErr UnexpectedBoolBytes), j, fs0\<lparr>pending := rest, Output := out\<rparr>)) \<and>
     (tok = FFTok_null \<longrightarrow>
        mainparse P key FFParse_want_value fs0 j =
        mainparse P key FFParse_after_value (fs0\<lparr>pending := rest, Output := out\<rparr>) j)"
proof -
  let ?fs = "fs0\<lparr>pending := rest, Output := out\<rparr>"
  obtain assign :: "'a Emoji \<Rightarrow> bool \<Rightarrow> 'a Emoji" where h: "bool_handler key = handle_bool assign"
    using bool_handler_unfold[OF assms(1)] by blast
  have pass: "value_tok tok \<Longrightarrow> mainparse_pass P key FFParse_want_value fs0 j =
      Some (after_handler key (handle_bool assign tok ?fs j))"
    using pass_want_value_bool[OF assms(1) assms(2), of P j] h by simp
  have a: "tok \<noteq> FFTok_bool \<and> tok \<noteq> FFTok_null \<longrightarrow>
        bool_handler key tok fs j = (Some (WrapErr (CannotUnmarshal tok ''bool'')), j, fs)"
    by (simp add: h handle_bool_mismatch)
  have b: "value_tok tok \<and> tok \<noteq> FFTok_bool \<and> tok \<noteq> FFTok_null \<longrightarrow>
        mainparse P key FFParse_want_value fs0 j =
        Some (Some (WrapErr (CannotUnmarshal tok ''bool'')), j, ?fs)"
  proof (intro impI, elim conjE)
    assume v: "value_tok tok" and n: "tok \<noteq> FFTok_bool" "tok \<noteq> FFTok_null"
    show "mainparse P key FFParse_want_value fs0 j =
        Some (Some (WrapErr (CannotUnmarshal tok ''bool'')), j, ?fs)"
      by (rule mainparse_Return) (simp add: pass[OF v] handle_bool_mismatch[OF n] after_handler_def)
  qed
  have c: "tok = FFTok_bool \<and> out \<noteq> ''true'' \<and> out \<noteq> ''false'' \<longrightarrow>
        mainparse P key FFParse_want_value fs0 j = Some (Some (WrapErr UnexpectedBoolBytes), j, ?fs)"
  proof (intro impI, elim conjE)
    assume t: "tok = FFTok_bool" and o: "out \<noteq> ''true''" "out \<noteq> ''false''"
    have v: "value_tok tok" by (simp add: t value_tok_def)
    have "handle_bool assign FFTok_bool ?fs j = (Some (WrapErr UnexpectedBoolBytes), j, ?fs)"
      by (rule handle_bool_malformed) (simp_all add: o)
    then show "mainparse P key FFParse_want_value fs0 j =
        Some (Some (WrapErr UnexpectedBoolBytes), j, ?fs)"
      using t by (intro mainparse_Return) (simp add: pass[OF v] after_handler_def)
  qed
  have d: "tok = FFTok_null \<longrightarrow>
        mainparse P key FFParse_want_value fs0 j = mainparse P key FFParse_after_value ?fs j"
  proof
    assume t: "tok = FFTok_null"
    have v: "value_tok tok" by (simp add: t value_tok_def)
    show "mainparse P key FFParse_want_value fs0 j = mainparse P key FFParse_after_value ?fs j"
      by (rule mainparse_Again) (simp add: pass[OF v] t handle_bool_null after_handler_def)
  qed
  from a b c d show ?thesis by blast
qed

theorem bool_field_errors_witness:
  \<open>ffjtEmojiManaged \<in> bool_keys \<and>
   mainparse ref_prims ffjtEmojiManaged FFParse_want_value (ref_NewFFLexer ''"x"}'')
     (fresh\<lparr>Managed := True\<rparr>) =
   Some (Some (WrapErr (CannotUnmarshal FFTok_string ''bool'')), fresh\<lparr>Managed := True\<rparr>,
         \<lparr>pending = [(FFTok_right_bracket, [])], Output = ''x'', BigError = None, Error = None\<rparr>) \<and>
   mainparse ref_prims ffjtEmojiManaged FFParse_want_value (ref_NewFFLexer ''null}'')
     (fresh\<lparr>Managed := True\<rparr>) =
   Some (None, fresh\<lparr>Managed := True\<rparr>,
         \<lparr>pending = [], Output = [], BigError = None, Error = None\<rparr>) \<and>
   mainparse ref_prims ffjtEmojiManaged FFParse_want_value
     \<lparr>pending = [(FFTok_bool, ''tru'')], Output = [], BigError = None, Error = None\<rparr> fresh =
   Some (Some (WrapErr UnexpectedBoolBytes), fresh,
         \<lparr>pending = [], Output = ''tru'', BigError = None, Error = None\<rparr>)\<close>
proof -
  let ?j = "fresh\<lparr>Managed := True\<rparr>"
  have k: "ffjtEmojiManaged \<in> bool_keys"
    by (simp add: bool_keys_def)
  have p1: \<open>pending (ref_NewFFLexer ''"x"}'') = (FFTok_string, ''x'') # [(FFTok_right_bracket, [])]\<close>
    by code_simp
  have p2: \<open>pending (ref_NewFFLexer ''null}'') = (FFTok_null, ''null'') # [(FFTok_right_bracket, [])]\<close>
    by code_simp
  have p3: "pending \<lparr>pending = [(FFTok_bool, ''tru'')], Output = [], BigError = None, Error = None\<rparr>
      = (FFTok_bool, ''tru'') # []"
    by simp
  have v: "value_tok FFTok_string" by (simp add: value_tok_def)
  have h1: \<open>mainparse ref_prims ffjtEmojiManaged FFParse_want_value (ref_NewFFLexer ''"x"}'') ?j =
      Some (Some (WrapErr (CannotUnmarshal FFTok_string ''bool'')), ?j,
            (ref_NewFFLexer ''"x"}'')\<lparr>pending := [(FFTok_right_bracket, [])], Output := ''x''\<rparr>)\<close>
    using bool_field_errors[OF k p1, of undefined ?j ref_prims] v by simp
  have h2: \<open>mainparse ref_prims ffjtEmojiManaged FFParse_want_value (ref_NewFFLexer ''null}'') ?j =
      mainparse ref_prims ffjtEmojiManaged FFParse_after_value
        ((ref_NewFFLexer ''null}'')\<lparr>pending := [(FFTok_right_bracket, [])], Output := ''null''\<rparr>) ?j\<close>
    using bool_field_errors[OF k p2, of undefined ?j ref_prims] by simp
  have h2b: \<open>mainparse ref_prims ffjtEmojiManaged FFParse_after_value
        ((ref_NewFFLexer ''null}'')\<lparr>pending := [(FFTok_right_bracket, [])], Output := ''null''\<rparr>) ?j =
      Some (None, ?j, \<lparr>pending = [], Output = [], BigError = None, Error = None\<rparr>)\<close>
    by code_simp
  have h3: "mainparse ref_prims ffjtEmojiManaged FFParse_want_value
     \<lparr>pending = [(FFTok_bool, ''tru'')], Output = [], BigError = None, Error = None\<rparr> fresh =
      Some (Some (WrapErr UnexpectedBoolBytes), fresh,
         \<lparr>pending = [], Output = ''tru'', BigError = None, Error = None\<rparr>)"
    using bool_field_errors[OF k p3, of undefined fresh ref_prims] by simp
  have e: \<open>(ref_NewFFLexer ''"x"}'')\<lparr>pending := [(FFTok_right_bracket, [])], Output := ''x''\<rparr> =
      \<lparr>pending = [(FFTok_right_bracket, [])], Output = ''x'', BigError = None, Error = None\<rparr>\<close>
    by (simp add: ref_NewFFLexer_def)
  from k h1 h2 h2b h3 e show ?thesis by simp
qed

section \<open>Properties of the encoder\<close>

text \<open>
  What the encoder writes, in the words of the specification: one JSON object whose
  members are, in the order of declaration, \<open>id\<close>, \<open>name\<close>, \<open>roles\<close> (only when the
  sequence has elements), \<open>user\<close>, and each boolean that is true, separated by commas.
  \<open>encoded_members\<close> is the list of keys with the bytes of their values; an error of a
  nested encoder is handed on.
\<close>

fun join :: "bytes \<Rightarrow> bytes list \<Rightarrow> bytes" where
  "join sep [] = []"
| "join sep [x] = x"
| "join sep (x # y # ys) = x @ sep @ join sep (y # ys)"

fun marshal_RoleIDs :: "'u prims \<Rightarrow> 64 word list \<Rightarrow> error + bytes list" where
  "marshal_RoleIDs P [] = Inr []"
| "marshal_RoleIDs P (v # vs) =
    (case RoleID_MarshalJSON P v of
       Inl err \<Rightarrow> Inl err
     | Inr obj \<Rightarrow>
        (case marshal_RoleIDs P vs of
           Inl err \<Rightarrow> Inl err
         | Inr objs \<Rightarrow> Inr (obj # objs)))"

definition bool_member :: "bytes \<Rightarrow> bool \<Rightarrow> (bytes \<times> bytes) list" where
  "bool_member key b = (if b then [(key, ''true'')] else [])"

definition encoded_members :: "'u prims \<Rightarrow> 'u Emoji \<Rightarrow> error + (bytes \<times> bytes) list" where
  "encoded_members P j =
    (case EmojiID_MarshalJSON P (ID j) of
       Inl err \<Rightarrow> Inl err
     | Inr idb \<Rightarrow>
        (case marshal_RoleIDs P (case RoleIDs j of None \<Rightarrow> [] | Some vs \<Rightarrow> vs) of
           Inl err \<Rightarrow> Inl err
         | Inr objs \<Rightarrow>
            (case User_MarshalJSONBuf P (User j) of
               (Some err, ub) \<Rightarrow> Inl err
             | (None, ub) \<Rightarrow>
                Inr ([(''id'', idb), (''name'', WriteJsonString P (Name j))]
                     @ (if objs = [] then [] else [(''roles'', ''['' @ join '','' objs @ '']'')])
                     @ [(''user'', ub)]
                     @ bool_member ''require_colons'' (RequireColons j)
                     @ bool_member ''managed'' (Managed j)
                     @ bool_member ''animated'' (Animated j)
                     @ bool_member ''available'' (Available j)))))"

definition render_member :: "bytes \<times> bytes \<Rightarrow> bytes" where
  \<open>render_member m = ''"'' @ fst m @ ''":'' @ snd m\<close>

definition render_object :: "(bytes \<times> bytes) list \<Rightarrow> bytes" where
  "render_object ms = ''{ '' @ join '','' (map render_member ms) @ ''}''"

lemma append_single: "(@) [c] = (#) c"
  by (rule ext) simp

lemma join_Cons: "join sep (x # xs) = x @ concat (map (\<lambda>b. sep @ b) xs)"
  by (induction xs arbitrary: x) auto

lemma Rewind_snoc: "Rewind 1 (xs @ [c]) = xs"
  by (simp add: Rewind_def)

lemma Rewind_terminated:
  "ms \<noteq> [] \<Longrightarrow> Rewind 1 (pre @ concat (map (\<lambda>m. m @ '','') ms)) = pre @ join '','' ms"
proof (induction ms arbitrary: pre)
  case Nil
  then show ?case by simp
next
  case (Cons m ms)
  show ?case
  proof (cases ms)
    case Nil
    then show ?thesis
      using Rewind_snoc[of "pre @ m" "CHR '',''"] by simp
  next
    case (Cons m' ms')
    then have "Rewind 1 ((pre @ m @ '','') @ concat (map (\<lambda>m. m @ '','') ms)) =
               (pre @ m @ '','') @ join '','' ms"
      using Cons.IH[of "pre @ m @ '',''"] by simp
    then show ?thesis using Cons by simp
  qed
qed

lemma write_RoleIDs_ok:
  "marshal_RoleIDs P vs = Inr objs \<Longrightarrow>
   write_RoleIDs P i vs buf =
     (None, buf @ (if i \<noteq> 0 then concat (map (\<lambda>b. '','' @ b) objs) else join '','' objs))"
proof (induction vs arbitrary: i buf objs)
  case Nil
  then show ?case by simp
next
  case (Cons v vs)
  from Cons.prems obtain obj objs' where
    o: "RoleID_MarshalJSON P v = Inr obj" "marshal_RoleIDs P vs = Inr objs'" "objs = obj # objs'"
    by (auto split: sum.splits)
  show ?case
    using Cons.IH[OF o(2)] o by (simp add: join_Cons append_single)
qed

lemma write_RoleIDs_err:
  "marshal_RoleIDs P vs = Inl err \<Longrightarrow> fst (write_RoleIDs P i vs buf) = Some err"
proof (induction vs arbitrary: i buf)
  case Nil
  then show ?case by simp
next
  case (Cons v vs)
  then show ?case by (auto split: sum.splits)
qed

lemma marshal_RoleIDs_Nil_iff: "marshal_RoleIDs P vs = Inr [] \<longleftrightarrow> vs = []"
  by (cases vs) (auto split: sum.splits)

lemma write_roles_member_ok:
  assumes "marshal_RoleIDs P (case roles of None \<Rightarrow> [] | Some vs \<Rightarrow> vs) = Inr objs"
  shows "write_roles_member P roles buf =
    (None, buf @ concat (map (\<lambda>m. render_member m @ '','')
       (if objs = [] then [] else [(''roles'', ''['' @ join '','' objs @ '']'')])))"
proof (cases "case roles of None \<Rightarrow> [] | Some vs \<Rightarrow> vs")
  case Nil
  with assms show ?thesis by (simp add: write_roles_member_def)
next
  case (Cons v vs)
  then obtain vs' where r: "roles = Some vs'" "vs' = v # vs"
    by (cases roles) auto
  from assms r have m: "marshal_RoleIDs P vs' = Inr objs" by simp
  with r have ne: "objs \<noteq> []"
    using marshal_RoleIDs_Nil_iff[of P vs'] by auto
  show ?thesis
    using write_RoleIDs_ok[OF m, of 0] r ne
    by (simp add: write_roles_member_def render_member_def)
qed

lemma write_roles_member_err:
  assumes "marshal_RoleIDs P (case roles of None \<Rightarrow> [] | Some vs \<Rightarrow> vs) = Inl err"
  shows "fst (write_roles_member P roles buf) = Some err"
proof -
  from assms obtain vs where r: "roles = Some vs" "marshal_RoleIDs P vs = Inl err"
    by (cases roles) auto
  from r(2) have ne: "vs \<noteq> []"
    by (cases vs) auto
  have "fst (write_RoleIDs P 0 vs (buf @ ''\"roles\":'' @ ''['')) = Some err"
    by (rule write_RoleIDs_err) (rule r(2))
  with r ne show ?thesis
    by (auto simp: write_roles_member_def split: prod.splits option.splits)
qed

lemma write_bool_member_eq:
  "write_bool_member key b buf =
     buf @ concat (map (\<lambda>m. render_member m @ '','') (bool_member key b))"
  by (simp add: write_bool_member_def bool_member_def render_member_def)

lemma MarshalJSONBuf_ok:
  assumes "encoded_members P j = Inr ms"
  shows "MarshalJSONBuf P (Some j) buf0 = (None, buf0 @ render_object ms)"
proof -
  from assms obtain idb objs ub where
    i: "EmojiID_MarshalJSON P (ID j) = Inr idb" and
    r: "marshal_RoleIDs P (case RoleIDs j of None \<Rightarrow> [] | Some vs \<Rightarrow> vs) = Inr objs" and
    u: "User_MarshalJSONBuf P (User j) = (None, ub)" and
    ms: "ms = [(''id'', idb), (''name'', WriteJsonString P (Name j))]
             @ (if objs = [] then [] else [(''roles'', ''['' @ join '','' objs @ '']'')])
             @ [(''user'', ub)]
             @ bool_member ''require_colons'' (RequireColons j)
             @ bool_member ''managed'' (Managed j)
             @ bool_member ''animated'' (Animated j)
             @ bool_member ''available'' (Available j)"
    by (auto simp: encoded_members_def split: sum.splits prod.splits option.splits)
  have ne: "map render_member ms \<noteq> []"
    by (simp add: ms)
  have "MarshalJSONBuf P (Some j) buf0 =
        (None, Rewind 1 ((buf0 @ ''{ '') @ concat (map (\<lambda>m. m @ '','') (map render_member ms))) @ ''}'')"
    by (simp add: MarshalJSONBuf_def i u write_roles_member_ok[OF r] write_bool_member_eq ms
        render_member_def Let_def comp_def)
  also have "\<dots> = (None, buf0 @ render_object ms)"
    by (simp only: Rewind_terminated[OF ne]) (simp add: render_object_def)
  finally show ?thesis .
qed

lemma MarshalJSONBuf_err:
  assumes "encoded_members P j = Inl err"
  shows "fst (MarshalJSONBuf P (Some j) buf0) = Some err"
proof (cases "EmojiID_MarshalJSON P (ID j)")
  case (Inl e)
  with assms show ?thesis
    by (simp add: encoded_members_def MarshalJSONBuf_def)
next
  case i: (Inr idb)
  show ?thesis
  proof (cases "marshal_RoleIDs P (case RoleIDs j of None \<Rightarrow> [] | Some vs \<Rightarrow> vs)")
    case (Inl e)
    with assms i have "e = err" by (simp add: encoded_members_def)
    with Inl have w: "fst (write_roles_member P (RoleIDs j) buf) = Some err" for buf
      by (simp add: write_roles_member_err)
    have w1: "write_roles_member P (RoleIDs j) buf \<noteq> (None, b)" for buf b
      using w[of buf] by auto
    have w2: "write_roles_member P (RoleIDs j) buf = (Some e', b) \<Longrightarrow> e' = err" for buf b e'
      using w[of buf] by auto
    show ?thesis
      by (auto simp: MarshalJSONBuf_def i Let_def w1 split: prod.splits option.splits dest: w2)
  next
    case r: (Inr objs)
    from assms i r obtain ub where u: "User_MarshalJSONBuf P (User j) = (Some err, ub)"
      by (auto simp: encoded_members_def split: prod.splits option.splits)
    show ?thesis
      by (simp add: MarshalJSONBuf_def i u write_roles_member_ok[OF r] Let_def)
  qed
qed

lemma MarshalJSON_members:
  "MarshalJSON P (Some j) =
    (case encoded_members P j of Inl err \<Rightarrow> Inl err | Inr ms \<Rightarrow> Inr (render_object ms))"
proof (cases "encoded_members P j")
  case (Inl err)
  from MarshalJSONBuf_err[OF this, of "[]"] Inl show ?thesis
    by (auto simp: MarshalJSON_def split: prod.splits option.splits)
next
  case (Inr ms)
  from MarshalJSONBuf_ok[OF this, of "[]"] Inr show ?thesis
    by (simp add: MarshalJSON_def)
qed

lemma bool_member_keys: "fst ` set (bool_member key b) = (if b then {key} else {})"
  by (simp add: bool_member_def)

lemma encoded_members_keys:
  assumes "encoded_members P j = Inr ms"
  shows "fst ` set ms =
    {''id'', ''name'', ''user''}
    \<union> (if (case RoleIDs j of None \<Rightarrow> [] | Some vs \<Rightarrow> vs) = [] then {} else {''roles''})
    \<union> (if RequireColons j then {''require_colons''} else {})
    \<union> (if Managed j then {''managed''} else {})
    \<union> (if Animated j then {''animated''} else {})
    \<union> (if Available j then {''available''} else {})"
proof -
  from assms obtain idb objs ub where
    r: "marshal_RoleIDs P (case RoleIDs j of None \<Rightarrow> [] | Some vs \<Rightarrow> vs) = Inr objs" and
    ms: "ms = [(''id'', idb), (''name'', WriteJsonString P (Name j))]
             @ (if objs = [] then [] else [(''roles'', ''['' @ join '','' objs @ '']'')])
             @ [(''user'', ub)]
             @ bool_member ''require_colons'' (RequireColons j)
             @ bool_member ''managed'' (Managed j)
             @ bool_member ''animated'' (Animated j)
             @ bool_member ''available'' (Available j)"
    by (auto simp: encoded_members_def split: sum.splits prod.splits option.splits)
  have e: "objs = [] \<longleftrightarrow> (case RoleIDs j of None \<Rightarrow> [] | Some vs \<Rightarrow> vs) = []"
    using r marshal_RoleIDs_Nil_iff[of P "case RoleIDs j of None \<Rightarrow> [] | Some vs \<Rightarrow> vs"] by auto
  show ?thesis
    unfolding ms by (simp add: image_Un bool_member_keys e)
qed

text \<open>
  C5. Whenever the encoder returns bytes for an Emoji, they are the object rendered from
  \<open>encoded_members\<close>, which always has the keys \<open>id\<close>, \<open>name\<close> and \<open>user\<close> and has the key
  of a boolean exactly when that boolean is true. With \<open>require_colons\<close> and the other
  three booleans false, none of the four boolean keys is written.
\<close>

theorem false_booleans_omitted:
  assumes "MarshalJSON P (Some j) = Inr out"
  shows "\<exists>ms. encoded_members P j = Inr ms \<and> out = render_object ms \<and>
     {''id'', ''name'', ''user''} \<subseteq> fst ` set ms \<and>
     (''require_colons'' \<in> fst ` set ms \<longleftrightarrow> RequireColons j) \<and>
     (''managed'' \<in> fst ` set ms \<longleftrightarrow> Managed j) \<and>
     (''animated'' \<in> fst ` set ms \<longleftrightarrow> Animated j) \<and>
     (''available'' \<in> fst ` set ms \<longleftrightarrow> Available j) \<and>
     (\<not> RequireColons j \<and> \<not> Managed j \<and> \<not> Animated j \<and> \<not> Available j \<longrightarrow>
        fst ` set ms \<inter> {''require_colons'', ''managed'', ''animated'', ''available''} = {})"
proof -
  from assms obtain ms where ms: "encoded_members P j = Inr ms" "out = render_object ms"
    by (auto simp: MarshalJSON_members split: sum.splits)
  show ?thesis
    using ms by (auto simp: encoded_members_keys[OF ms(1)] split: if_splits)
qed

theorem false_booleans_omitted_witness:
  \<open>MarshalJSON ref_prims (Some (fresh\<lparr>ID := 7, Name := ''e'', User := ''bob''\<rparr>)) =
     Inr ''{ "id":"7","name":"e","user":{"username":"bob"}}'' \<and>
   (\<exists>ms. ''{ "id":"7","name":"e","user":{"username":"bob"}}'' = render_object ms \<and>
     fst ` set ms \<inter> {''require_colons'', ''managed'', ''animated'', ''available''} = {} \<and>
     {''id'', ''name'', ''user''} \<subseteq> fst ` set ms)\<close>
proof -
  let ?j = "fresh\<lparr>ID := 7, Name := ''e'', User := ''bob''\<rparr>"
  have m: \<open>MarshalJSON ref_prims (Some ?j) = Inr ''{ "id":"7","name":"e","user":{"username":"bob"}}''\<close>
    by code_simp
  have b: "\<not> RequireColons ?j \<and> \<not> Managed ?j \<and> \<not> Animated ?j \<and> \<not> Available ?j"
    by (simp add: fresh_def)
  from false_booleans_omitted[OF m] obtain ms where
    h: \<open>encoded_members ref_prims ?j = Inr ms \<and>
     ''{ "id":"7","name":"e","user":{"username":"bob"}}'' = render_object ms \<and>
     {''id'', ''name'', ''user''} \<subseteq> fst ` set ms \<and>
     (''require_colons'' \<in> fst ` set ms \<longleftrightarrow> RequireColons ?j) \<and>
     (''managed'' \<in> fst ` set ms \<longleftrightarrow> Managed ?j) \<and>
     (''animated'' \<in> fst ` set ms \<longleftrightarrow> Animated ?j) \<and>
     (''available'' \<in> fst ` set ms \<longleftrightarrow> Available ?j) \<and>
     (\<not> RequireColons ?j \<and> \<not> Managed ?j \<and> \<not> Animated ?j \<and> \<not> Available ?j \<longrightarrow>
        fst ` set ms \<inter> {''require_colons'', ''managed'', ''animated'', ''available''} = {})\<close> ..
  note r = h[THEN conjunct2, THEN conjunct1]
  note k = h[THEN conjunct2, THEN conjunct2, THEN conjunct1]
  note d = h[THEN conjunct2, THEN conjunct2, THEN conjunct2, THEN conjunct2, THEN conjunct2,
    THEN conjunct2, THEN conjunct2, THEN mp, OF b]
  have \<open>\<exists>ms. ''{ "id":"7","name":"e","user":{"username":"bob"}}'' = render_object ms \<and>
     fst ` set ms \<inter> {''require_colons'', ''managed'', ''animated'', ''available''} = {} \<and>
     {''id'', ''name'', ''user''} \<subseteq> fst ` set ms\<close>
    by (rule exI[of _ ms]) (intro conjI r d k)
  with m show ?thesis by (rule conjI)
qed

text \<open>
  C8. For a nil pointer both entry points write the four bytes \<open>null\<close> and return no
  error, without calling any of the field encoders. For an Emoji the bytes written are
  one object: an opening brace, the members separated by commas, a closing brace, and
  the list of members is never empty. The only other outcome is the error of a nested
  encoder, which is handed on.
\<close>

theorem nil_writes_null:
  "MarshalJSON P None = Inr ''null'' \<and>
   MarshalJSONBuf P None buf = (None, buf @ ''null'') \<and>
   (case encoded_members P j of
      Inr ms \<Rightarrow>
        ms \<noteq> [] \<and> MarshalJSON P (Some j) = Inr (''{ '' @ join '','' (map render_member ms) @ ''}'') \<and>
        MarshalJSONBuf P (Some j) buf = (None, buf @ ''{ '' @ join '','' (map render_member ms) @ ''}'')
    | Inl err \<Rightarrow>
        MarshalJSON P (Some j) = Inl err \<and> fst (MarshalJSONBuf P (Some j) buf) = Some err)"
proof -
  have a: "MarshalJSON P None = Inr ''null''"
    by (simp add: MarshalJSON_def)
  have b: "MarshalJSONBuf P None buf = (None, buf @ ''null'')"
    by (simp add: MarshalJSONBuf_def)
  have c: "encoded_members P j = Inr ms \<Longrightarrow> ms \<noteq> []" for ms
    by (auto simp: encoded_members_def split: sum.splits prod.splits option.splits)
  show ?thesis
  proof (cases "encoded_members P j")
    case (Inl err)
    with a b MarshalJSONBuf_err[OF Inl, of buf] show ?thesis
      by (simp add: MarshalJSON_members)
  next
    case (Inr ms)
    with a b c[OF Inr] MarshalJSONBuf_ok[OF Inr, of buf] show ?thesis
      by (simp add: MarshalJSON_members render_object_def)
  qed
qed

theorem nil_writes_null_witness:
  \<open>MarshalJSON ref_prims None = Inr ''null'' \<and>
   MarshalJSON ref_prims (Some (fresh\<lparr>ID := 7, Managed := True\<rparr>)) =
     Inr ''{ "id":"7","name":"","user":{"username":""},"managed":true}''\<close>
proof -
  let ?j = "fresh\<lparr>ID := 7, Managed := True\<rparr>"
  have e: \<open>encoded_members ref_prims ?j =
      Inr [(''id'', ''"7"''), (''name'', ''""''), (''user'', ''{"username":""}''),
           (''managed'', ''true'')]\<close>
    by code_simp
  have r: \<open>''{ '' @ join '','' (map render_member
         [(''id'', ''"7"''), (''name'', ''""''), (''user'', ''{"username":""}''),
          (''managed'', ''true'')]) @ ''}'' =
       ''{ "id":"7","name":"","user":{"username":""},"managed":true}''\<close>
    by code_simp
  have n: "MarshalJSON ref_prims None = Inr ''null''"
    using nil_writes_null[of ref_prims "[]" ?j] by (rule conjunct1)
  have "MarshalJSON ref_prims (Some ?j) = Inr (''{ '' @ join '','' (map render_member
         [(''id'', ''\"7\"''), (''name'', ''\"\"''), (''user'', ''{\"username\":\"\"}''),
          (''managed'', ''true'')]) @ ''}'')"
    using nil_writes_null[of ref_prims "[]" ?j] by (simp only: e sum.case)
  then have \<open>MarshalJSON ref_prims (Some ?j) =
      Inr ''{ "id":"7","name":"","user":{"username":""},"managed":true}''\<close>
    by (simp only: r)
  with n show ?thesis by (rule conjI)
qed

text \<open>
  C6. The \<open>roles\<close> member is written only for a sequence with elements: for the nil and
  for the empty sequence the encoder writes nothing at that point (no key, no \<open>[]\<close>) and
  \<open>roles\<close> is not among the members. In the other direction a null value for \<open>roles\<close> is
  accepted and sets \<open>RoleIDs\<close> to nil.
\<close>

theorem roles_omitted_when_empty:
  "(RoleIDs j = None \<or> RoleIDs j = Some [] \<longrightarrow>
      write_roles_member P (RoleIDs j) buf = (None, buf) \<and>
      (\<forall>ms. encoded_members P j = Inr ms \<longrightarrow> ''roles'' \<notin> fst ` set ms)) \<and>
   handle_RoleIDs P FFTok_null fs j = Some (None, j\<lparr>RoleIDs := None\<rparr>, fs) \<and>
   (pending fs0 = (FFTok_null, out) # rest \<longrightarrow>
      mainparse P ffjtEmojiRoleIDs FFParse_want_value fs0 j =
      mainparse P ffjtEmojiRoleIDs FFParse_after_value
        (fs0\<lparr>pending := rest, Output := out\<rparr>) (j\<lparr>RoleIDs := None\<rparr>))"
proof -
  have a: "RoleIDs j = None \<or> RoleIDs j = Some [] \<Longrightarrow>
      write_roles_member P (RoleIDs j) buf = (None, buf)"
    by (auto simp: write_roles_member_def)
  have b: "RoleIDs j = None \<or> RoleIDs j = Some [] \<Longrightarrow> encoded_members P j = Inr ms \<Longrightarrow>
      ''roles'' \<notin> fst ` set ms" for ms
    by (auto simp: encoded_members_keys)
  have c: "handle_RoleIDs P FFTok_null fs j = Some (None, j\<lparr>RoleIDs := None\<rparr>, fs)" for fs
    by (simp add: handle_RoleIDs_def)
  have d: "pending fs0 = (FFTok_null, out) # rest \<Longrightarrow>
      mainparse P ffjtEmojiRoleIDs FFParse_want_value fs0 j =
      mainparse P ffjtEmojiRoleIDs FFParse_after_value
        (fs0\<lparr>pending := rest, Output := out\<rparr>) (j\<lparr>RoleIDs := None\<rparr>)"
    by (rule mainparse_Again)
       (simp add: mainparse_pass_def Scan_cons value_tok_def c after_handler_def)
  from a b c d show ?thesis by blast
qed

theorem roles_omitted_when_empty_witness:
  \<open>MarshalJSON ref_prims (Some (fresh\<lparr>RoleIDs := Some []\<rparr>)) =
     Inr ''{ "id":"0","name":"","user":{"username":""}}'' \<and>
   write_roles_member ref_prims (RoleIDs (fresh\<lparr>RoleIDs := Some []\<rparr>)) ''x'' = (None, ''x'') \<and>
   mainparse ref_prims ffjtEmojiRoleIDs FFParse_want_value (ref_NewFFLexer ''null}'')
     (fresh\<lparr>RoleIDs := Some [1]\<rparr>) =
   Some (None, fresh\<lparr>RoleIDs := None\<rparr>,
         \<lparr>pending = [], Output = [], BigError = None, Error = None\<rparr>)\<close>
proof -
  let ?j = "fresh\<lparr>RoleIDs := Some []\<rparr>"
  let ?fs = \<open>ref_NewFFLexer ''null}''\<close>
  have m: \<open>MarshalJSON ref_prims (Some ?j) = Inr ''{ "id":"0","name":"","user":{"username":""}}''\<close>
    by code_simp
  have r: "RoleIDs ?j = None \<or> RoleIDs ?j = Some []"
    by simp
  have p: "pending ?fs = (FFTok_null, ''null'') # [(FFTok_right_bracket, [])]"
    by code_simp
  have w: "write_roles_member ref_prims (RoleIDs ?j) ''x'' = (None, ''x'')"
    using roles_omitted_when_empty[of ?j ref_prims "''x''", THEN conjunct1, rule_format, OF r]
    by (rule conjunct1)
  have "mainparse ref_prims ffjtEmojiRoleIDs FFParse_want_value ?fs (fresh\<lparr>RoleIDs := Some [1]\<rparr>) =
      mainparse ref_prims ffjtEmojiRoleIDs FFParse_after_value
        (?fs\<lparr>pending := [(FFTok_right_bracket, [])], Output := ''null''\<rparr>)
        ((fresh\<lparr>RoleIDs := Some [1]\<rparr>)\<lparr>RoleIDs := None\<rparr>)"
    using roles_omitted_when_empty[of "fresh\<lparr>RoleIDs := Some [1]\<rparr>" ref_prims _ _ ?fs,
        THEN conjunct2, THEN conjunct2, rule_format, OF p] .
  moreover have "mainparse ref_prims ffjtEmojiRoleIDs FFParse_after_value
        (?fs\<lparr>pending := [(FFTok_right_bracket, [])], Output := ''null''\<rparr>)
        ((fresh\<lparr>RoleIDs := Some [1]\<rparr>)\<lparr>RoleIDs := None\<rparr>) =
      Some (None, fresh\<lparr>RoleIDs := None\<rparr>,
         \<lparr>pending = [], Output = [], BigError = None, Error = None\<rparr>)"
    by code_simp
  ultimately show ?thesis using m w by simp
qed

subsection \<open>Failure\<close>














section \<open>Sticker.TagList (message.go, lines 258-266)\<close>

text \<open>
  Of the fields of \<open>Sticker\<close> only \<open>Tags\<close> is read by \<open>TagList\<close>. A Go string is a
  sequence of bytes.
\<close>

record Sticker =
  Tags :: bytes

text \<open>
  \<open>strings.Split(s, sep)\<close> for a separator of one byte, as in the call
  \<open>strings.Split(s.Tags, ",")\<close>: the substrings between the separators, one more than
  there are separators.
\<close>

fun Split :: "bytes \<Rightarrow> char \<Rightarrow> bytes list" where
  "Split [] sep = [[]]"
| "Split (c # cs) sep =
    (if c = sep then [] # Split cs sep
     else case Split cs sep of
        [] \<Rightarrow> [[c]]
      | seg # segs \<Rightarrow> (c # seg) # segs)"

text \<open>
  \<open>strings.TrimSpace\<close> removes the leading and the trailing runes for which
  \<open>unicode.IsSpace\<close> holds. \<open>space_runes\<close> lists the UTF-8 encodings of these runes: the six
  ASCII ones, U+0085, U+00A0, U+1680, U+2000 to U+200A, U+2028, U+2029, U+202F, U+205F
  and U+3000. Bytes that are not valid UTF-8 decode to the error rune, which is not a
  space.
\<close>

definition space_runes :: "bytes list" where
  "space_runes =
    [[CHR 0x09], [CHR 0x0A], [CHR 0x0B], [CHR 0x0C], [CHR 0x0D], [CHR 0x20],
     [CHR 0xC2, CHR 0x85], [CHR 0xC2, CHR 0xA0],
     [CHR 0xE1, CHR 0x9A, CHR 0x80],
     [CHR 0xE2, CHR 0x80, CHR 0x80], [CHR 0xE2, CHR 0x80, CHR 0x81],
     [CHR 0xE2, CHR 0x80, CHR 0x82], [CHR 0xE2, CHR 0x80, CHR 0x83],
     [CHR 0xE2, CHR 0x80, CHR 0x84], [CHR 0xE2, CHR 0x80, CHR 0x85],
     [CHR 0xE2, CHR 0x80, CHR 0x86], [CHR 0xE2, CHR 0x80, CHR 0x87],
     [CHR 0xE2, CHR 0x80, CHR 0x88], [CHR 0xE2, CHR 0x80, CHR 0x89],
     [CHR 0xE2, CHR 0x80, CHR 0x8A],
     [CHR 0xE2, CHR 0x80, CHR 0xA8], [CHR 0xE2, CHR 0x80, CHR 0xA9],
     [CHR 0xE2, CHR 0x80, CHR 0xAF],
     [CHR 0xE2, CHR 0x81, CHR 0x9F],
     [CHR 0xE3, CHR 0x80, CHR 0x80]]"

lemma space_runes_nonempty: "w \<in> set space_runes \<Longrightarrow> w \<noteq> []"
  by (auto simp: space_runes_def)

lemma find_space_runes: "find Q space_runes = Some w \<Longrightarrow> w \<noteq> [] \<and> Q w \<and> w \<in> set space_runes"
  by (metis find_Some_iff nth_mem space_runes_nonempty)

function TrimLeft :: "bytes \<Rightarrow> bytes" where
  "TrimLeft s =
    (case find (\<lambda>w. prefix w s) space_runes of
       None \<Rightarrow> s
     | Some w \<Rightarrow> TrimLeft (drop (length w) s))"
  by pat_completeness auto
termination
proof (relation "measure length")
  fix s w
  assume "find (\<lambda>w. prefix w s) space_runes = Some w"
  then have "w \<noteq> []" "prefix w s"
    using find_space_runes[of "\<lambda>w. prefix w s" w] by auto
  then show "(drop (length w) s, s) \<in> measure length"
    by (auto simp: prefix_def)
qed simp

function TrimRight :: "bytes \<Rightarrow> bytes" where
  "TrimRight s =
    (case find (\<lambda>w. suffix w s) space_runes of
       None \<Rightarrow> s
     | Some w \<Rightarrow> TrimRight (take (length s - length w) s))"
  by pat_completeness auto
termination
proof (relation "measure length")
  fix s w
  assume "find (\<lambda>w. suffix w s) space_runes = Some w"
  then have "w \<noteq> []" "suffix w s"
    using find_space_runes[of "\<lambda>w. suffix w s" w] by auto
  then show "(take (length s - length w) s, s) \<in> measure length"
    by (auto simp: suffix_def)
qed simp

declare TrimLeft.simps [simp del] TrimRight.simps [simp del]

definition TrimSpace :: "bytes \<Rightarrow> bytes" where
  "TrimSpace s = TrimRight (TrimLeft s)"

text \<open>\<open>TagList\<close>: split at the commas, then trim every element in place.\<close>

definition TagList :: "Sticker \<Rightarrow> bytes list" where
  "TagList s = map TrimSpace (Split (Tags s) CHR '','')"

text \<open>A string made of white-space runes only.\<close>

definition only_spaces :: "bytes \<Rightarrow> bool" where
  "only_spaces l \<longleftrightarrow> (\<exists>ws. set ws \<subseteq> set space_runes \<and> l = concat ws)"

lemma only_spaces_Nil: "only_spaces []"
  unfolding only_spaces_def by (rule exI[of _ "[]"]) simp

lemma only_spaces_prepend:
  assumes "w \<in> set space_runes" and "only_spaces l"
  shows "only_spaces (w @ l)"
proof -
  from assms(2) obtain ws where "set ws \<subseteq> set space_runes" "l = concat ws"
    by (auto simp: only_spaces_def)
  with assms(1) show ?thesis
    unfolding only_spaces_def by (intro exI[of _ "w # ws"]) simp
qed

lemma only_spaces_append:
  assumes "only_spaces l" and "w \<in> set space_runes"
  shows "only_spaces (l @ w)"
proof -
  from assms(1) obtain ws where "set ws \<subseteq> set space_runes" "l = concat ws"
    by (auto simp: only_spaces_def)
  with assms(2) show ?thesis
    unfolding only_spaces_def by (intro exI[of _ "ws @ [w]"]) simp
qed

lemma Split_not_Nil: "Split s sep \<noteq> []"
  by (induction s) (auto split: list.splits)

lemma length_Split: "length (Split s sep) = Suc (count_list s sep)"
  using Split_not_Nil[of _ sep] by (induction s) (auto split: list.splits)

lemma join_Split: "join [sep] (Split s sep) = s"
proof (induction s)
  case Nil
  then show ?case by simp
next
  case (Cons c cs)
  obtain seg segs where sp: "Split cs sep = seg # segs"
    using Split_not_Nil[of cs sep] by (cases "Split cs sep") auto
  with Cons show ?case
    by (cases segs) (auto simp: join_Cons)
qed

lemma Split_no_sep: "seg \<in> set (Split s sep) \<Longrightarrow> sep \<notin> set seg"
proof (induction s arbitrary: seg)
  case Nil
  then show ?case by simp
next
  case (Cons c cs)
  then show ?case
    by (auto split: if_splits list.splits)
qed

lemma TrimLeft_decomp: "\<exists>l. s = l @ TrimLeft s \<and> only_spaces l"
proof (induction s rule: TrimLeft.induct)
  case (1 s)
  show ?case
  proof (cases "find (\<lambda>w. prefix w s) space_runes")
    case None
    then have "TrimLeft s = s" by (subst TrimLeft.simps) simp
    then show ?thesis using only_spaces_Nil by auto
  next
    case (Some w)
    then have w: "w \<in> set space_runes" "prefix w s"
      using find_space_runes[of "\<lambda>w. prefix w s" w] by auto
    from Some have t: "TrimLeft s = TrimLeft (drop (length w) s)"
      by (subst TrimLeft.simps) simp
    from 1[OF Some] obtain l where
      l: "drop (length w) s = l @ TrimLeft (drop (length w) s)" "only_spaces l"
      by blast
    from w(2) have "s = w @ drop (length w) s"
      by (auto simp: prefix_def)
    with l t have "s = (w @ l) @ TrimLeft s"
      by (metis append.assoc)
    with only_spaces_prepend[OF w(1) l(2)] show ?thesis by blast
  qed
qed

lemma TrimLeft_no_prefix: "w \<in> set space_runes \<Longrightarrow> \<not> prefix w (TrimLeft s)"
proof (induction s rule: TrimLeft.induct)
  case (1 s)
  show ?case
  proof (cases "find (\<lambda>w. prefix w s) space_runes")
    case None
    then have "TrimLeft s = s" by (subst TrimLeft.simps) simp
    with None 1(2) show ?thesis by (auto simp: find_None_iff)
  next
    case (Some v)
    then have "TrimLeft s = TrimLeft (drop (length v) s)"
      by (subst TrimLeft.simps) simp
    with 1(1)[OF Some 1(2)] show ?thesis by simp
  qed
qed

lemma TrimRight_decomp: "\<exists>r. s = TrimRight s @ r \<and> only_spaces r"
proof (induction s rule: TrimRight.induct)
  case (1 s)
  show ?case
  proof (cases "find (\<lambda>w. suffix w s) space_runes")
    case None
    then have "TrimRight s = s" by (subst TrimRight.simps) simp
    then show ?thesis using only_spaces_Nil by auto
  next
    case (Some w)
    then have w: "w \<in> set space_runes" "suffix w s"
      using find_space_runes[of "\<lambda>w. suffix w s" w] by auto
    from Some have t: "TrimRight s = TrimRight (take (length s - length w) s)"
      by (subst TrimRight.simps) simp
    from 1[OF Some] obtain r where
      r: "take (length s - length w) s = TrimRight (take (length s - length w) s) @ r"
        "only_spaces r"
      by blast
    from w(2) have "s = take (length s - length w) s @ w"
      by (auto simp: suffix_def)
    with r t have "s = TrimRight s @ (r @ w)"
      by (metis append.assoc)
    with only_spaces_append[OF r(2) w(1)] show ?thesis by blast
  qed
qed

lemma TrimRight_no_suffix: "w \<in> set space_runes \<Longrightarrow> \<not> suffix w (TrimRight s)"
proof (induction s rule: TrimRight.induct)
  case (1 s)
  show ?case
  proof (cases "find (\<lambda>w. suffix w s) space_runes")
    case None
    then have "TrimRight s = s" by (subst TrimRight.simps) simp
    with None 1(2) show ?thesis by (auto simp: find_None_iff)
  next
    case (Some v)
    then have "TrimRight s = TrimRight (take (length s - length v) s)"
      by (subst TrimRight.simps) simp
    with 1(1)[OF Some 1(2)] show ?thesis by simp
  qed
qed

lemma TrimSpace_decomp:
  "\<exists>l r. s = l @ TrimSpace s @ r \<and> only_spaces l \<and> only_spaces r"
proof -
  obtain l where l: "s = l @ TrimLeft s" "only_spaces l"
    using TrimLeft_decomp[of s] by blast
  obtain r where r: "TrimLeft s = TrimRight (TrimLeft s) @ r" "only_spaces r"
    using TrimRight_decomp[of "TrimLeft s"] by blast
  from l(1) r(1) have "s = l @ TrimSpace s @ r"
    by (simp add: TrimSpace_def)
  with l(2) r(2) show ?thesis by blast
qed

lemma TrimSpace_no_space:
  assumes "w \<in> set space_runes"
  shows "\<not> prefix w (TrimSpace s) \<and> \<not> suffix w (TrimSpace s)"
proof -
  obtain r where r: "TrimLeft s = TrimRight (TrimLeft s) @ r"
    using TrimRight_decomp[of "TrimLeft s"] by blast
  have "\<not> prefix w (TrimSpace s)"
  proof
    assume "prefix w (TrimSpace s)"
    then have "prefix w (TrimRight (TrimLeft s) @ r)"
      by (simp add: TrimSpace_def prefix_prefix)
    with r have "prefix w (TrimLeft s)" by simp
    with TrimLeft_no_prefix[OF assms] show False by blast
  qed
  moreover have "\<not> suffix w (TrimSpace s)"
    using TrimRight_no_suffix[OF assms] by (simp add: TrimSpace_def)
  ultimately show ?thesis by blast
qed

text \<open>
  C10. The elements of \<open>TagList\<close> are the segments of \<open>Tags\<close> between the commas, in
  order (joining the segments with commas gives \<open>Tags\<close> back, and no segment holds a
  comma), each with its leading and trailing white space removed: the element is what
  is left of the segment between a run of white space on either side, and it neither
  starts nor ends with a white-space rune. There is one element more than there are
  commas, so the list is never empty; for the empty \<open>Tags\<close> it is the list of the empty
  string.
\<close>

theorem TagList_segments:
  "TagList s = map TrimSpace (Split (Tags s) CHR '','') \<and>
   join '','' (Split (Tags s) CHR '','') = Tags s \<and>
   (\<forall>seg \<in> set (Split (Tags s) CHR '',''). CHR '','' \<notin> set seg) \<and>
   length (TagList s) = Suc (count_list (Tags s) CHR '','') \<and>
   (\<forall>seg. \<exists>l r. seg = l @ TrimSpace seg @ r \<and> only_spaces l \<and> only_spaces r) \<and>
   (\<forall>t \<in> set (TagList s). \<forall>w \<in> set space_runes. \<not> prefix w t \<and> \<not> suffix w t) \<and>
   (Tags s = [] \<longrightarrow> TagList s = [[]])"
proof (intro conjI)
  show "TagList s = map TrimSpace (Split (Tags s) CHR '','')"
    by (simp add: TagList_def)
  show "join '','' (Split (Tags s) CHR '','') = Tags s"
    by (rule join_Split)
  show "\<forall>seg \<in> set (Split (Tags s) CHR '',''). CHR '','' \<notin> set seg"
    using Split_no_sep by blast
  show "length (TagList s) = Suc (count_list (Tags s) CHR '','')"
    by (simp add: TagList_def length_Split)
  show "\<forall>seg. \<exists>l r. seg = l @ TrimSpace seg @ r \<and> only_spaces l \<and> only_spaces r"
    using TrimSpace_decomp by blast
  show "\<forall>t \<in> set (TagList s). \<forall>w \<in> set space_runes. \<not> prefix w t \<and> \<not> suffix w t"
    using TrimSpace_no_space by (auto simp: TagList_def)
  show "Tags s = [] \<longrightarrow> TagList s = [[]]"
  proof
    assume "Tags s = []"
    moreover have "TrimSpace [] = []"
      using TrimSpace_decomp[of "[]"] by auto
    ultimately show "TagList s = [[]]"
      by (simp add: TagList_def)
  qed
qed

theorem TagList_segments_witness:
  "TagList \<lparr>Tags = []\<rparr> = [[]] \<and>
   TagList \<lparr>Tags = '' a,b  ,, c d ''\<rparr> = [''a'', ''b'', [], ''c d''] \<and>
   length (TagList \<lparr>Tags = '' a,b  ,, c d ''\<rparr>) = 4 \<and>
   join '','' (Split '' a,b  ,, c d '' CHR '','') = '' a,b  ,, c d ''"
proof -
  have t: "Tags \<lparr>Tags = []\<rparr> = []" by simp
  have a: "TagList \<lparr>Tags = []\<rparr> = [[]]"
    using TagList_segments[of "\<lparr>Tags = []\<rparr>"] t by blast
  have b: "TagList \<lparr>Tags = '' a,b  ,, c d ''\<rparr> = [''a'', ''b'', [], ''c d'']"
    by code_simp
  have c: "count_list '' a,b  ,, c d '' CHR '','' = 3"
    by code_simp
  have "length (TagList \<lparr>Tags = '' a,b  ,, c d ''\<rparr>) =
        Suc (count_list (Tags \<lparr>Tags = '' a,b  ,, c d ''\<rparr>) CHR '','')"
    using TagList_segments[of "\<lparr>Tags = '' a,b  ,, c d ''\<rparr>"] by blast
  then have d: "length (TagList \<lparr>Tags = '' a,b  ,, c d ''\<rparr>) = 4"
    using c by simp
  have "join '','' (Split (Tags \<lparr>Tags = '' a,b  ,, c d ''\<rparr>) CHR '','') =
        Tags \<lparr>Tags = '' a,b  ,, c d ''\<rparr>"
    using TagList_segments[of "\<lparr>Tags = '' a,b  ,, c d ''\<rparr>"] by blast
  then have e: "join '','' (Split '' a,b  ,, c d '' CHR '','') = '' a,b  ,, c d ''"
    by simp
  from a b d e show ?thesis by blast
qed

section \<open>Round trip: decoding what the encoder wrote\<close>

text \<open>
  The round trip goes through the lexer and the codecs of the nested types, which are
  parameters. What it needs of them is stated here. \<open>toks P b\<close> are the tokens the lexer
  produces for the input \<open>b\<close>. \<open>lexer_reads P frag ts\<close>: an input that starts with \<open>frag\<close>
  is tokenized as \<open>ts\<close> followed by the tokens of the rest; for a literal such as \<open>true\<close>,
  which only ends at a delimiter, the rest has to start with one.
\<close>

definition toks :: "'u prims \<Rightarrow> bytes \<Rightarrow> (FFTok \<times> bytes) list" where
  "toks P b = pending (NewFFLexer P b)"

definition delimited :: "bytes \<Rightarrow> bool" where
  "delimited b \<longleftrightarrow> (case b of [] \<Rightarrow> False | c # cs \<Rightarrow> c = CHR '','' \<or> c = CHR '']'' \<or> c = CHR ''}'')"

definition lexer_reads :: "'u prims \<Rightarrow> bytes \<Rightarrow> (FFTok \<times> bytes) list \<Rightarrow> bool" where
  "lexer_reads P frag ts \<longleftrightarrow> (\<forall>rest. toks P (frag @ rest) = ts @ toks P rest)"

definition lexer_reads_value :: "'u prims \<Rightarrow> bytes \<Rightarrow> (FFTok \<times> bytes) list \<Rightarrow> bool" where
  "lexer_reads_value P frag ts \<longleftrightarrow>
     (\<forall>rest. delimited rest \<longrightarrow> toks P (frag @ rest) = ts @ toks P rest)"

text \<open>The lexer reads the punctuation, the quoted wire keys and \<open>true\<close> as JSON has them.\<close>

definition lexer_ok :: "'u prims \<Rightarrow> bool" where
  \<open>lexer_ok P \<longleftrightarrow>
     lexer_reads P ''{ '' [(FFTok_left_bracket, [])] \<and>
     lexer_reads P ''}'' [(FFTok_right_bracket, [])] \<and>
     lexer_reads P ''['' [(FFTok_left_brace, [])] \<and>
     lexer_reads P '']'' [(FFTok_right_brace, [])] \<and>
     lexer_reads P '','' [(FFTok_comma, [])] \<and>
     (\<forall>key \<in> fst ` set wire_keys.
        lexer_reads P (''"'' @ key @ ''":'') [(FFTok_string, key), (FFTok_colon, [])]) \<and>
     lexer_reads_value P ''true'' [(FFTok_bool, ''true'')]\<close>

text \<open>
  An identifier \<open>v\<close> survives its codec: the bytes \<open>enc\<close> writes for it are one value
  token which, captured and handed to \<open>dec\<close>, gives \<open>v\<close> back; or they are \<open>null\<close>, which
  the handlers pass over, and \<open>v\<close> is the value \<open>old\<close> the receiver holds already.
\<close>

definition scalar_roundtrip ::
  "'u prims \<Rightarrow> (64 word \<Rightarrow> error + bytes) \<Rightarrow> (bytes \<Rightarrow> 64 word \<Rightarrow> error option \<times> 64 word) \<Rightarrow>
   64 word \<Rightarrow> 64 word \<Rightarrow> bool" where
  "scalar_roundtrip P enc dec old v \<longleftrightarrow>
    (case enc v of
       Inl err \<Rightarrow> False
     | Inr b \<Rightarrow>
        (\<forall>rest fs. delimited rest \<and> pending fs = toks P (b @ rest) \<longrightarrow>
          (case Scan fs of (tok, fs1) \<Rightarrow>
             value_tok tok \<and>
             (if tok = FFTok_null then v = old \<and> pending fs1 = toks P rest
              else \<exists>tbuf fs2. CaptureField P tok fs1 = Inr (tbuf, fs2) \<and>
                     pending fs2 = toks P rest \<and> dec tbuf old = (None, v)))))"

text \<open>The same for the \<open>User\<close> held in the field \<open>user\<close>, whose decoder reads from the lexer.\<close>

definition user_roundtrip :: "'u prims \<Rightarrow> 'u \<Rightarrow> 'u \<Rightarrow> bool" where
  "user_roundtrip P old u \<longleftrightarrow>
    (case User_MarshalJSONBuf P u of
       (Some err, ub) \<Rightarrow> False
     | (None, ub) \<Rightarrow>
        (\<forall>rest fs. delimited rest \<and> pending fs = toks P (ub @ rest) \<longrightarrow>
          (case Scan fs of (tok, fs1) \<Rightarrow>
             value_tok tok \<and>
             (if tok = FFTok_null then u = old \<and> pending fs1 = toks P rest
              else \<exists>fs2. User_UnmarshalJSONFFLexer P fs1 FFParse_want_key old = (None, u, fs2) \<and>
                     pending fs2 = toks P rest))))"

text \<open>An Emoji whose fields all have their zero value, around the zero value of \<open>User\<close>.\<close>

definition zero_Emoji :: "'u \<Rightarrow> 'u Emoji" where
  "zero_Emoji u0 = \<lparr>ID = 0, Name = [], RoleIDs = None, User = u0,
                    RequireColons = False, Managed = False, Animated = False, Available = False\<rparr>"

text \<open>
  \<open>proceeds\<close>: with the lexer before the input \<open>b\<close>, the loop in state \<open>st\<close> with the
  receiver \<open>j\<close> comes to state \<open>st'\<close> with the receiver \<open>j'\<close> and the lexer before \<open>b'\<close>.
  \<open>finishes\<close>: it returns without an error, leaving the receiver \<open>j'\<close>.
\<close>

definition proceeds ::
  "'u prims \<Rightarrow> FFParseState \<Rightarrow> bytes \<Rightarrow> 'u Emoji \<Rightarrow> FFParseState \<Rightarrow> bytes \<Rightarrow> 'u Emoji \<Rightarrow> bool" where
  "proceeds P st b j st' b' j' \<longleftrightarrow>
    (\<forall>fs k. pending fs = toks P b \<longrightarrow>
       (\<exists>fs' k'. pending fs' = toks P b' \<and> mainparse P k st fs j = mainparse P k' st' fs' j'))"

definition finishes :: "'u prims \<Rightarrow> FFParseState \<Rightarrow> bytes \<Rightarrow> 'u Emoji \<Rightarrow> 'u Emoji \<Rightarrow> bool" where
  "finishes P st b j j' \<longleftrightarrow>
    (\<forall>fs k. pending fs = toks P b \<longrightarrow> (\<exists>fs'. mainparse P k st fs j = Some (None, j', fs')))"

lemma proceeds_refl: "proceeds P st b j st b j"
  unfolding proceeds_def by blast

lemma proceeds_trans:
  assumes "proceeds P st b j st' b' j'" and "proceeds P st' b' j' st'' b'' j''"
  shows "proceeds P st b j st'' b'' j''"
  unfolding proceeds_def
proof (intro allI impI)
  fix fs :: FFLexer and k
  assume "pending fs = toks P b"
  with assms(1) obtain fs' k' where
    1: "pending fs' = toks P b'" "mainparse P k st fs j = mainparse P k' st' fs' j'"
    unfolding proceeds_def by blast
  from assms(2) 1(1) obtain fs'' k'' where
    2: "pending fs'' = toks P b''" "mainparse P k' st' fs' j' = mainparse P k'' st'' fs'' j''"
    unfolding proceeds_def by blast
  from 1 2 show "\<exists>fs' k'. pending fs' = toks P b'' \<and>
      mainparse P k st fs j = mainparse P k' st'' fs' j''"
    by auto
qed

lemma proceeds_finishes:
  assumes "proceeds P st b j st' b' j'" and "finishes P st' b' j' j''"
  shows "finishes P st b j j''"
  unfolding finishes_def
proof (intro allI impI)
  fix fs :: FFLexer and k
  assume "pending fs = toks P b"
  with assms(1) obtain fs' k' where
    1: "pending fs' = toks P b'" "mainparse P k st fs j = mainparse P k' st' fs' j'"
    unfolding proceeds_def by blast
  from assms(2) 1(1) obtain fs'' where "mainparse P k' st' fs' j' = Some (None, j'', fs'')"
    unfolding finishes_def by blast
  with 1(2) show "\<exists>fs'. mainparse P k st fs j = Some (None, j'', fs')"
    by auto
qed

lemma reads_pending:
  "lexer_reads P frag ts \<Longrightarrow> pending fs = toks P (frag @ rest) \<Longrightarrow> pending fs = ts @ toks P rest"
  by (simp add: lexer_reads_def)

lemma lexer_ok_open: "lexer_ok P \<Longrightarrow> lexer_reads P ''{ '' [(FFTok_left_bracket, [])]"
  and lexer_ok_close: "lexer_ok P \<Longrightarrow> lexer_reads P ''}'' [(FFTok_right_bracket, [])]"
  and lexer_ok_array: "lexer_ok P \<Longrightarrow> lexer_reads P ''['' [(FFTok_left_brace, [])]"
  and lexer_ok_array_end: "lexer_ok P \<Longrightarrow> lexer_reads P '']'' [(FFTok_right_brace, [])]"
  and lexer_ok_comma: "lexer_ok P \<Longrightarrow> lexer_reads P '','' [(FFTok_comma, [])]"
  and lexer_ok_true: "lexer_ok P \<Longrightarrow> lexer_reads_value P ''true'' [(FFTok_bool, ''true'')]"
  unfolding lexer_ok_def by blast+

lemma lexer_ok_key:
  "lexer_ok P \<Longrightarrow> (key, f) \<in> set wire_keys \<Longrightarrow>
   lexer_reads P (''\"'' @ key @ ''\":'') [(FFTok_string, key), (FFTok_colon, [])]"
  unfolding lexer_ok_def by force

lemma proceeds_open:
  assumes "lexer_ok P"
  shows "proceeds P FFParse_map_start (''{ '' @ r) j FFParse_want_key r j"
  unfolding proceeds_def
proof (intro allI impI)
  fix fs :: FFLexer and k
  assume "pending fs = toks P (''{ '' @ r)"
  then have p: "pending fs = (FFTok_left_bracket, []) # toks P r"
    using reads_pending[OF lexer_ok_open[OF assms], of fs r] by simp
  have "mainparse P k FFParse_map_start fs j =
        mainparse P k FFParse_want_key (fs\<lparr>pending := toks P r, Output := []\<rparr>) j"
    by (rule mainparse_Again) (simp add: mainparse_pass_def Scan_cons[OF p])
  then show "\<exists>fs' k'. pending fs' = toks P r \<and>
      mainparse P k FFParse_map_start fs j = mainparse P k' FFParse_want_key fs' j"
    by (intro exI[of _ "fs\<lparr>pending := toks P r, Output := []\<rparr>"] exI[of _ k]) simp
qed

lemma proceeds_comma:
  assumes "lexer_ok P"
  shows "proceeds P FFParse_after_value ('','' @ r) j FFParse_want_key r j"
  unfolding proceeds_def
proof (intro allI impI)
  fix fs :: FFLexer and k
  assume "pending fs = toks P ('','' @ r)"
  then have p: "pending fs = (FFTok_comma, []) # toks P r"
    using reads_pending[OF lexer_ok_comma[OF assms], of fs r] by simp
  have "mainparse P k FFParse_after_value fs j =
        mainparse P k FFParse_want_key (fs\<lparr>pending := toks P r, Output := []\<rparr>) j"
    by (rule mainparse_Again) (simp add: mainparse_pass_def Scan_cons[OF p])
  then show "\<exists>fs' k'. pending fs' = toks P r \<and>
      mainparse P k FFParse_after_value fs j = mainparse P k' FFParse_want_key fs' j"
    by (intro exI[of _ "fs\<lparr>pending := toks P r, Output := []\<rparr>"] exI[of _ k]) simp
qed

lemma finishes_close:
  assumes "lexer_ok P"
  shows "finishes P FFParse_after_value (''}'' @ r) j j"
  unfolding finishes_def
proof (intro allI impI)
  fix fs :: FFLexer and k
  assume "pending fs = toks P (''}'' @ r)"
  then have p: "pending fs = (FFTok_right_bracket, []) # toks P r"
    using reads_pending[OF lexer_ok_close[OF assms], of fs r] by simp
  have "mainparse P k FFParse_after_value fs j =
        Some (None, j, fs\<lparr>pending := toks P r, Output := []\<rparr>)"
    by (rule mainparse_Return) (simp add: mainparse_pass_def Scan_cons[OF p])
  then show "\<exists>fs'. mainparse P k FFParse_after_value fs j = Some (None, j, fs')"
    by blast
qed

text \<open>A quoted wire key and its colon bring the loop to the handler of that key.\<close>

lemma key_to_value:
  assumes "lexer_ok P" and "(key, f) \<in> set wire_keys"
    and "pending fs = toks P (render_member (key, vb) @ r)"
  shows "mainparse P k FFParse_want_key fs j =
         mainparse P f FFParse_want_value (fs\<lparr>pending := toks P (vb @ r), Output := []\<rparr>) j"
proof -
  from assms(3) have p: "pending fs = (FFTok_string, key) # (FFTok_colon, []) # toks P (vb @ r)"
    using reads_pending[OF lexer_ok_key[OF assms(1,2)], of fs "vb @ r"]
    by (simp add: render_member_def)
  from assms(2) have m: "map_of wire_keys key = Some f"
    by (auto simp: wire_keys_def ffjKey_defs)
  then have "key \<noteq> []"
    by (auto simp: wire_keys_def ffjKey_defs split: if_splits)
  with m have "match_key P key = f"
    by (simp add: match_key_def exact_switch_wire_keys)
  with key_colon_passes[OF p, of P k j] show ?thesis by simp
qed

lemma scalar_roundtripD:
  assumes "scalar_roundtrip P enc dec old v" and "enc v = Inr b" and "delimited rest"
    and "pending fs = toks P (b @ rest)" and "Scan fs = (tok, fs1)"
  shows "value_tok tok \<and>
     (if tok = FFTok_null then v = old \<and> pending fs1 = toks P rest
      else \<exists>tbuf fs2. CaptureField P tok fs1 = Inr (tbuf, fs2) \<and>
             pending fs2 = toks P rest \<and> dec tbuf old = (None, v))"
proof -
  from assms(1,2) have "\<forall>rest fs. delimited rest \<and> pending fs = toks P (b @ rest) \<longrightarrow>
          (case Scan fs of (tok, fs1) \<Rightarrow>
             value_tok tok \<and>
             (if tok = FFTok_null then v = old \<and> pending fs1 = toks P rest
              else \<exists>tbuf fs2. CaptureField P tok fs1 = Inr (tbuf, fs2) \<and>
                     pending fs2 = toks P rest \<and> dec tbuf old = (None, v)))"
    by (simp add: scalar_roundtrip_def)
  from this[rule_format, of rest fs] assms(3,4,5) show ?thesis
    by simp
qed

lemma user_roundtripD:
  assumes "user_roundtrip P old u" and "User_MarshalJSONBuf P u = (None, ub)" and "delimited rest"
    and "pending fs = toks P (ub @ rest)" and "Scan fs = (tok, fs1)"
  shows "value_tok tok \<and>
     (if tok = FFTok_null then u = old \<and> pending fs1 = toks P rest
      else \<exists>fs2. User_UnmarshalJSONFFLexer P fs1 FFParse_want_key old = (None, u, fs2) \<and>
             pending fs2 = toks P rest)"
proof -
  from assms(1,2) have "\<forall>rest fs. delimited rest \<and> pending fs = toks P (ub @ rest) \<longrightarrow>
          (case Scan fs of (tok, fs1) \<Rightarrow>
             value_tok tok \<and>
             (if tok = FFTok_null then u = old \<and> pending fs1 = toks P rest
              else \<exists>fs2. User_UnmarshalJSONFFLexer P fs1 FFParse_want_key old = (None, u, fs2) \<and>
                     pending fs2 = toks P rest))"
    by (simp add: user_roundtrip_def)
  from this[rule_format, of rest fs] assms(3,4,5) show ?thesis
    by simp
qed

lemma proceeds_name:
  assumes "lexer_ok P" and "lexer_reads P w [(FFTok_string, n)]"
  shows "proceeds P FFParse_want_key (render_member (''name'', w) @ r) j
           FFParse_after_value r (j\<lparr>Name := n\<rparr>)"
  unfolding proceeds_def
proof (intro allI impI)
  fix fs :: FFLexer and k
  assume a: "pending fs = toks P (render_member (''name'', w) @ r)"
  let ?fs1 = "fs\<lparr>pending := toks P (w @ r), Output := []\<rparr>"
  let ?fs2 = "?fs1\<lparr>pending := toks P r, Output := n\<rparr>"
  have w: "(''name'', ffjtEmojiName) \<in> set wire_keys"
    by (simp add: wire_keys_def ffjKey_defs)
  have p: "pending ?fs1 = (FFTok_string, n) # toks P r"
    using reads_pending[OF assms(2), of ?fs1 r] by simp
  have "mainparse P k FFParse_want_key fs j = mainparse P ffjtEmojiName FFParse_want_value ?fs1 j"
    by (rule key_to_value[OF assms(1) w a])
  also have "\<dots> = mainparse P ffjtEmojiName FFParse_after_value ?fs2 (j\<lparr>Name := n\<rparr>)"
    by (rule mainparse_Again)
       (simp add: mainparse_pass_def Scan_cons[OF p] value_tok_def handle_Name_def
          after_handler_def)
  finally show "\<exists>fs' k'. pending fs' = toks P r \<and>
      mainparse P k FFParse_want_key fs j =
      mainparse P k' FFParse_after_value fs' (j\<lparr>Name := n\<rparr>)"
    by (intro exI[of _ ?fs2] exI[of _ ffjtEmojiName]) simp
qed

lemma proceeds_bool:
  assumes "lexer_ok P" and "(kstr, key) \<in> set wire_keys" and "key \<in> bool_keys"
    and "bool_handler key = handle_bool assign" and "delimited r"
  shows "proceeds P FFParse_want_key (render_member (kstr, ''true'') @ r) j
           FFParse_after_value r (assign j True)"
  unfolding proceeds_def
proof (intro allI impI)
  fix fs :: FFLexer and k
  assume a: "pending fs = toks P (render_member (kstr, ''true'') @ r)"
  let ?fs1 = "fs\<lparr>pending := toks P (''true'' @ r), Output := []\<rparr>"
  let ?fs2 = "?fs1\<lparr>pending := toks P r, Output := ''true''\<rparr>"
  have "toks P (''true'' @ r) = (FFTok_bool, ''true'') # toks P r"
    using lexer_ok_true[OF assms(1)] assms(5) by (simp add: lexer_reads_value_def)
  then have p: "pending ?fs1 = (FFTok_bool, ''true'') # toks P r"
    by simp
  have v: "value_tok FFTok_bool" by (simp add: value_tok_def)
  have "mainparse P k FFParse_want_key fs j = mainparse P key FFParse_want_value ?fs1 j"
    by (rule key_to_value[OF assms(1) assms(2) a])
  also have "\<dots> = mainparse P key FFParse_after_value ?fs2 (assign j True)"
    by (rule mainparse_Again, subst pass_want_value_bool[OF assms(3) p v])
       (simp add: assms(4) handle_bool_def after_handler_def)
  finally show "\<exists>fs' k'. pending fs' = toks P r \<and>
      mainparse P k FFParse_want_key fs j =
      mainparse P k' FFParse_after_value fs' (assign j True)"
    by (intro exI[of _ ?fs2] exI[of _ key]) simp
qed

lemma proceeds_id:
  assumes "lexer_ok P"
    and "scalar_roundtrip P (EmojiID_MarshalJSON P) (EmojiID_UnmarshalJSON P) (ID j) v"
    and "EmojiID_MarshalJSON P v = Inr b" and "delimited r"
  shows "proceeds P FFParse_want_key (render_member (''id'', b) @ r) j
           FFParse_after_value r (j\<lparr>ID := v\<rparr>)"
  unfolding proceeds_def
proof (intro allI impI)
  fix fs :: FFLexer and k
  assume a: "pending fs = toks P (render_member (''id'', b) @ r)"
  let ?fs1 = "fs\<lparr>pending := toks P (b @ r), Output := []\<rparr>"
  have w: "(''id'', ffjtEmojiID) \<in> set wire_keys"
    by (simp add: wire_keys_def ffjKey_defs)
  obtain tok fs2 where s: "Scan ?fs1 = (tok, fs2)" by (cases "Scan ?fs1")
  have rt: "value_tok tok"
      "if tok = FFTok_null then v = ID j \<and> pending fs2 = toks P r
       else \<exists>tbuf fs3. CaptureField P tok fs2 = Inr (tbuf, fs3) \<and> pending fs3 = toks P r \<and>
            EmojiID_UnmarshalJSON P tbuf (ID j) = (None, v)"
    using scalar_roundtripD[OF assms(2) assms(3) assms(4) _ s] by simp_all
  have 1: "mainparse P k FFParse_want_key fs j = mainparse P ffjtEmojiID FFParse_want_value ?fs1 j"
    by (rule key_to_value[OF assms(1) w a])
  have "\<exists>fs'. pending fs' = toks P r \<and>
      mainparse_pass P ffjtEmojiID FFParse_want_value ?fs1 j =
      Some (Again ffjtEmojiID FFParse_after_value fs' (j\<lparr>ID := v\<rparr>))"
  proof (cases "tok = FFTok_null")
    case True
    with rt s show ?thesis
      by (intro exI[of _ fs2])
         (simp add: mainparse_pass_def handle_ID_def after_handler_def)
  next
    case False
    with rt(2) obtain tbuf fs3 where c: "CaptureField P tok fs2 = Inr (tbuf, fs3)"
      "pending fs3 = toks P r" "EmojiID_UnmarshalJSON P tbuf (ID j) = (None, v)"
      by auto
    with False rt(1) s show ?thesis
      by (intro exI[of _ fs3])
         (simp add: mainparse_pass_def handle_ID_def after_handler_def value_tok_not_error)
  qed
  then obtain fs' where f: "pending fs' = toks P r"
    "mainparse_pass P ffjtEmojiID FFParse_want_value ?fs1 j =
      Some (Again ffjtEmojiID FFParse_after_value fs' (j\<lparr>ID := v\<rparr>))"
    by blast
  from 1 mainparse_Again[OF f(2)] f(1)
  show "\<exists>fs' k'. pending fs' = toks P r \<and>
      mainparse P k FFParse_want_key fs j =
      mainparse P k' FFParse_after_value fs' (j\<lparr>ID := v\<rparr>)"
    by (intro exI[of _ fs'] exI[of _ ffjtEmojiID]) simp
qed

lemma proceeds_user:
  assumes "lexer_ok P" and "user_roundtrip P (User j) u"
    and "User_MarshalJSONBuf P u = (None, ub)" and "delimited r"
  shows "proceeds P FFParse_want_key (render_member (''user'', ub) @ r) j
           FFParse_after_value r (j\<lparr>User := u\<rparr>)"
  unfolding proceeds_def
proof (intro allI impI)
  fix fs :: FFLexer and k
  assume a: "pending fs = toks P (render_member (''user'', ub) @ r)"
  let ?fs1 = "fs\<lparr>pending := toks P (ub @ r), Output := []\<rparr>"
  have w: "(''user'', ffjtEmojiUser) \<in> set wire_keys"
    by (simp add: wire_keys_def ffjKey_defs)
  obtain tok fs2 where s: "Scan ?fs1 = (tok, fs2)" by (cases "Scan ?fs1")
  have rt: "value_tok tok"
      "if tok = FFTok_null then u = User j \<and> pending fs2 = toks P r
       else \<exists>fs3. User_UnmarshalJSONFFLexer P fs2 FFParse_want_key (User j) = (None, u, fs3) \<and>
            pending fs3 = toks P r"
    using user_roundtripD[OF assms(2) assms(3) assms(4) _ s] by simp_all
  have 1: "mainparse P k FFParse_want_key fs j = mainparse P ffjtEmojiUser FFParse_want_value ?fs1 j"
    by (rule key_to_value[OF assms(1) w a])
  have "\<exists>fs'. pending fs' = toks P r \<and>
      mainparse_pass P ffjtEmojiUser FFParse_want_value ?fs1 j =
      Some (Again ffjtEmojiUser FFParse_after_value fs' (j\<lparr>User := u\<rparr>))"
  proof (cases "tok = FFTok_null")
    case True
    with rt s show ?thesis
      by (intro exI[of _ fs2])
         (simp add: mainparse_pass_def handle_User_def after_handler_def)
  next
    case False
    with rt(2) obtain fs3 where c:
      "User_UnmarshalJSONFFLexer P fs2 FFParse_want_key (User j) = (None, u, fs3)"
      "pending fs3 = toks P r"
      by auto
    with False rt(1) s show ?thesis
      by (intro exI[of _ fs3])
         (simp add: mainparse_pass_def handle_User_def after_handler_def value_tok_not_error)
  qed
  then obtain fs' where f: "pending fs' = toks P r"
    "mainparse_pass P ffjtEmojiUser FFParse_want_value ?fs1 j =
      Some (Again ffjtEmojiUser FFParse_after_value fs' (j\<lparr>User := u\<rparr>))"
    by blast
  from 1 mainparse_Again[OF f(2)] f(1)
  show "\<exists>fs' k'. pending fs' = toks P r \<and>
      mainparse P k FFParse_want_key fs j =
      mainparse P k' FFParse_after_value fs' (j\<lparr>User := u\<rparr>)"
    by (intro exI[of _ fs'] exI[of _ ffjtEmojiUser]) simp
qed

subsection \<open>The sequence of role identifiers\<close>

lemma RoleIDs_loop_close:
  "pending fs = (FFTok_right_brace, out) # rest \<Longrightarrow>
   RoleIDs_loop P w fs j = Some (None, j, fs\<lparr>pending := rest, Output := out\<rparr>)"
  by (subst RoleIDs_loop.simps) (simp add: Scan_cons)

lemma RoleIDs_loop_comma:
  "pending fs = (FFTok_comma, out) # rest \<Longrightarrow>
   RoleIDs_loop P False fs j = RoleIDs_loop P False (fs\<lparr>pending := rest, Output := out\<rparr>) j"
  by (subst RoleIDs_loop.simps) (simp add: Scan_cons)

lemma value_tok_cases:
  "value_tok tok \<Longrightarrow> tok \<noteq> FFTok_error \<and> tok \<noteq> FFTok_right_brace \<and> tok \<noteq> FFTok_comma"
  by (auto simp: value_tok_def)

lemma RoleIDs_loop_element:
  assumes "scalar_roundtrip P (RoleID_MarshalJSON P) (RoleID_UnmarshalJSON P) 0 v"
    and "RoleID_MarshalJSON P v = Inr b" and "delimited rest"
    and "pending fs = toks P (b @ rest)"
  shows "\<exists>fs'. pending fs' = toks P rest \<and>
     RoleIDs_loop P w fs j =
     RoleIDs_loop P False fs' (j\<lparr>RoleIDs := append_slice (RoleIDs j) v\<rparr>)"
proof -
  obtain tok fs1 where s: "Scan fs = (tok, fs1)" by (cases "Scan fs")
  have rt: "value_tok tok"
      "if tok = FFTok_null then v = 0 \<and> pending fs1 = toks P rest
       else \<exists>tbuf fs2. CaptureField P tok fs1 = Inr (tbuf, fs2) \<and> pending fs2 = toks P rest \<and>
            RoleID_UnmarshalJSON P tbuf 0 = (None, v)"
    using scalar_roundtripD[OF assms(1) assms(2) assms(3) assms(4) s] by simp_all
  note n = value_tok_cases[OF rt(1)]
  show ?thesis
  proof (cases "tok = FFTok_null")
    case True
    with rt(2) have "v = 0" "pending fs1 = toks P rest" by simp_all
    moreover have "RoleIDs_loop P w fs j =
        RoleIDs_loop P False fs1 (j\<lparr>RoleIDs := append_slice (RoleIDs j) 0\<rparr>)"
      by (subst RoleIDs_loop.simps) (simp add: s True)
    ultimately show ?thesis by (intro exI[of _ fs1]) simp
  next
    case False
    with rt(2) obtain tbuf fs2 where c: "CaptureField P tok fs1 = Inr (tbuf, fs2)"
      "pending fs2 = toks P rest" "RoleID_UnmarshalJSON P tbuf 0 = (None, v)"
      by auto
    have "RoleIDs_loop P w fs j =
        RoleIDs_loop P False fs2 (j\<lparr>RoleIDs := append_slice (RoleIDs j) v\<rparr>)"
      by (subst RoleIDs_loop.simps) (simp add: s False n c)
    with c(2) show ?thesis by (intro exI[of _ fs2]) simp
  qed
qed

lemma delimited_simps:
  "delimited ('','' @ x)" "delimited ('']'' @ x)" "delimited (''}'' @ x)"
  by (simp_all add: delimited_def)

lemma RoleIDs_loop_decodes:
  assumes "lexer_ok P"
    and "\<forall>v \<in> set vs. scalar_roundtrip P (RoleID_MarshalJSON P) (RoleID_UnmarshalJSON P) 0 v"
    and "marshal_RoleIDs P vs = Inr objs" and "vs \<noteq> []"
    and "pending fs = toks P (join '','' objs @ '']'' @ r)"
    and "RoleIDs j = Some acc"
  shows "\<exists>fs'. pending fs' = toks P r \<and>
     RoleIDs_loop P w fs j = Some (None, j\<lparr>RoleIDs := Some (acc @ vs)\<rparr>, fs')"
  using assms(2-)
proof (induction vs arbitrary: objs fs j acc w)
  case Nil
  then show ?case by simp
next
  case (Cons v vs)
  from Cons.prems(2) obtain b objs' where
    o: "RoleID_MarshalJSON P v = Inr b" "marshal_RoleIDs P vs = Inr objs'" "objs = b # objs'"
    by (auto split: sum.splits)
  let ?rest = "concat (map (\<lambda>x. '','' @ x) objs') @ '']'' @ r"
  let ?j1 = "j\<lparr>RoleIDs := append_slice (RoleIDs j) v\<rparr>"
  have d: "delimited ?rest"
    by (cases objs') (simp_all add: delimited_def)
  from Cons.prems(4) o(3) have p: "pending fs = toks P (b @ ?rest)"
    by (simp add: join_Cons)
  from Cons.prems(1) have rv: "scalar_roundtrip P (RoleID_MarshalJSON P) (RoleID_UnmarshalJSON P) 0 v"
    by simp
  from RoleIDs_loop_element[OF rv o(1) d p, of w j] obtain fs1 where
    e: "pending fs1 = toks P ?rest" "RoleIDs_loop P w fs j = RoleIDs_loop P False fs1 ?j1"
    by blast
  have r1: "RoleIDs ?j1 = Some (acc @ [v])"
    using Cons.prems(5) by (simp add: append_slice_def)
  show ?case
  proof (cases vs)
    case Nil
    with o(2) have "objs' = []" by simp
    with e(1) have "pending fs1 = (FFTok_right_brace, []) # toks P r"
      using reads_pending[OF lexer_ok_array_end[OF assms(1)], of fs1 r] by simp
    from RoleIDs_loop_close[OF this, of P False ?j1] e(2) Nil r1
    show ?thesis
      by (intro exI[of _ "fs1\<lparr>pending := toks P r, Output := []\<rparr>"])
         (simp add: append_slice_def Cons.prems(5))
  next
    case (Cons v' vs')
    then have ne: "vs \<noteq> []" by simp
    with o(2) obtain b' objs'' where o': "objs' = b' # objs''"
      using marshal_RoleIDs_Nil_iff[of P vs] by (cases objs') auto
    then have "?rest = '','' @ join '','' objs' @ '']'' @ r"
      by (simp add: join_Cons)
    with e(1) have pc: "pending fs1 = (FFTok_comma, []) # toks P (join '','' objs' @ '']'' @ r)"
      using reads_pending[OF lexer_ok_comma[OF assms(1)], of fs1 "join '','' objs' @ '']'' @ r"]
      by simp
    let ?fs2 = "fs1\<lparr>pending := toks P (join '','' objs' @ '']'' @ r), Output := []\<rparr>"
    have c: "RoleIDs_loop P False fs1 ?j1 = RoleIDs_loop P False ?fs2 ?j1"
      by (rule RoleIDs_loop_comma[OF pc])
    from Cons.prems(1) have rvs:
      "\<forall>v \<in> set vs. scalar_roundtrip P (RoleID_MarshalJSON P) (RoleID_UnmarshalJSON P) 0 v"
      by simp
    have p2: "pending ?fs2 = toks P (join '','' objs' @ '']'' @ r)" by simp
    from Cons.IH[OF rvs o(2) ne p2 r1, of False] obtain fs' where
      f: "pending fs' = toks P r"
         "RoleIDs_loop P False ?fs2 ?j1 = Some (None, ?j1\<lparr>RoleIDs := Some ((acc @ [v]) @ vs)\<rparr>, fs')"
      by blast
    from e(2) c f show ?thesis
      by (intro exI[of _ fs']) simp
  qed
qed

lemma pass_want_value_RoleIDs:
  "pending fs = (tok, out) # rest \<Longrightarrow> value_tok tok \<Longrightarrow>
   mainparse_pass P ffjtEmojiRoleIDs FFParse_want_value fs j =
   map_option (after_handler ffjtEmojiRoleIDs)
     (handle_RoleIDs P tok (fs\<lparr>pending := rest, Output := out\<rparr>) j)"
  by (simp add: mainparse_pass_def Scan_cons value_tok_not_error)

lemma proceeds_roles:
  assumes "lexer_ok P"
    and "\<forall>v \<in> set vs. scalar_roundtrip P (RoleID_MarshalJSON P) (RoleID_UnmarshalJSON P) 0 v"
    and "marshal_RoleIDs P vs = Inr objs" and "vs \<noteq> []"
  shows "proceeds P FFParse_want_key (render_member (''roles'', ''['' @ join '','' objs @ '']'') @ r) j
           FFParse_after_value r (j\<lparr>RoleIDs := Some vs\<rparr>)"
  unfolding proceeds_def
proof (intro allI impI)
  fix fs :: FFLexer and k
  assume a: "pending fs = toks P (render_member (''roles'', ''['' @ join '','' objs @ '']'') @ r)"
  let ?fs1 = "fs\<lparr>pending := toks P ((''['' @ join '','' objs @ '']'') @ r), Output := []\<rparr>"
  let ?fs2 = "?fs1\<lparr>pending := toks P (join '','' objs @ '']'' @ r), Output := []\<rparr>"
  have w: "(''roles'', ffjtEmojiRoleIDs) \<in> set wire_keys"
    by (simp add: wire_keys_def ffjKey_defs)
  have p: "pending ?fs1 = (FFTok_left_brace, []) # toks P (join '','' objs @ '']'' @ r)"
    using reads_pending[OF lexer_ok_array[OF assms(1)], of ?fs1 "join '','' objs @ '']'' @ r"]
    by simp
  have p2: "pending ?fs2 = toks P (join '','' objs @ '']'' @ r)" by simp
  have r0: "RoleIDs (j\<lparr>RoleIDs := Some []\<rparr>) = Some []" by simp
  from RoleIDs_loop_decodes[OF assms(1) assms(2) assms(3) assms(4) p2 r0, of True] obtain fs' where
    f: "pending fs' = toks P r"
       "RoleIDs_loop P True ?fs2 (j\<lparr>RoleIDs := Some []\<rparr>) =
        Some (None, j\<lparr>RoleIDs := Some vs\<rparr>, fs')"
    by auto
  have 1: "mainparse P k FFParse_want_key fs j = mainparse P ffjtEmojiRoleIDs FFParse_want_value ?fs1 j"
    by (rule key_to_value[OF assms(1) w a])
  have "mainparse_pass P ffjtEmojiRoleIDs FFParse_want_value ?fs1 j =
      Some (Again ffjtEmojiRoleIDs FFParse_after_value fs' (j\<lparr>RoleIDs := Some vs\<rparr>))"
    using f(2)
    by (subst pass_want_value_RoleIDs[OF p])
       (simp_all add: value_tok_def handle_RoleIDs_def after_handler_def)
  from 1 mainparse_Again[OF this] f(1)
  show "\<exists>fs' k'. pending fs' = toks P r \<and>
      mainparse P k FFParse_want_key fs j =
      mainparse P k' FFParse_after_value fs' (j\<lparr>RoleIDs := Some vs\<rparr>)"
    by (intro exI[of _ fs'] exI[of _ ffjtEmojiRoleIDs]) simp
qed

subsection \<open>The whole object\<close>

text \<open>The members after the first one, each with the comma that precedes it.\<close>

definition comma_members :: "(bytes \<times> bytes) list \<Rightarrow> bytes" where
  "comma_members ms = concat (map (\<lambda>m. '','' @ render_member m) ms)"

lemma comma_members_simps:
  "comma_members [] = []"
  "comma_members (m # ms) = '','' @ render_member m @ comma_members ms"
  "comma_members (ms @ ms') = comma_members ms @ comma_members ms'"
  by (simp_all add: comma_members_def)

lemma render_object_Cons:
  "render_object (m # ms) = ''{ '' @ render_member m @ comma_members ms @ ''}''"
  by (simp add: render_object_def join_Cons comma_members_def comp_def)

lemma delimited_comma_members: "delimited tail \<Longrightarrow> delimited (comma_members ms @ tail)"
  by (cases ms) (simp_all add: comma_members_simps delimited_def)

lemma proceeds_member:
  assumes "lexer_ok P"
    and "proceeds P FFParse_want_key (render_member m @ r) j FFParse_after_value r j'"
  shows "proceeds P FFParse_after_value (comma_members [m] @ r) j FFParse_after_value r j'"
proof -
  have "proceeds P FFParse_after_value ('','' @ render_member m @ r) j
          FFParse_want_key (render_member m @ r) j"
    by (rule proceeds_comma[OF assms(1)])
  from proceeds_trans[OF this assms(2)] show ?thesis
    by (simp add: comma_members_simps)
qed

lemma proceeds_opt_bool:
  assumes "lexer_ok P" and "(kstr, key) \<in> set wire_keys" and "key \<in> bool_keys"
    and "bool_handler key = handle_bool assign" and "delimited r" and "assign j False = j"
  shows "proceeds P FFParse_after_value (comma_members (bool_member kstr b) @ r) j
           FFParse_after_value r (assign j b)"
proof (cases b)
  case True
  have "proceeds P FFParse_after_value (comma_members [(kstr, ''true'')] @ r) j
          FFParse_after_value r (assign j True)"
    by (rule proceeds_member[OF assms(1)]) (rule proceeds_bool[OF assms(1-5)])
  with True show ?thesis by (simp add: bool_member_def)
next
  case False
  with assms(6) show ?thesis
    by (simp add: bool_member_def comma_members_simps proceeds_refl)
qed

lemma update_same:
  "RequireColons j = b \<Longrightarrow> j\<lparr>RequireColons := b\<rparr> = j"
  "Managed j = b \<Longrightarrow> j\<lparr>Managed := b\<rparr> = j"
  "Animated j = b \<Longrightarrow> j\<lparr>Animated := b\<rparr> = j"
  "Available j = b \<Longrightarrow> j\<lparr>Available := b\<rparr> = j"
  by (cases j; simp)+

lemma bool_handler_eqs:
  "bool_handler ffjtEmojiRequireColons = handle_bool (\<lambda>j b. j\<lparr>RequireColons := b\<rparr>)"
  "bool_handler ffjtEmojiManaged = handle_bool (\<lambda>j b. j\<lparr>Managed := b\<rparr>)"
  "bool_handler ffjtEmojiAnimated = handle_bool (\<lambda>j b. j\<lparr>Animated := b\<rparr>)"
  "bool_handler ffjtEmojiAvailable = handle_bool (\<lambda>j b. j\<lparr>Available := b\<rparr>)"
  by (simp_all add: bool_handler_def handle_RequireColons_def handle_Managed_def
      handle_Animated_def handle_Available_def)

lemma scalar_roundtrip_encodes: "scalar_roundtrip P enc dec old v \<Longrightarrow> \<exists>b. enc v = Inr b"
  unfolding scalar_roundtrip_def by (cases "enc v") simp_all

lemma user_roundtrip_encodes:
  "user_roundtrip P old u \<Longrightarrow> \<exists>ub. User_MarshalJSONBuf P u = (None, ub)"
proof -
  assume a: "user_roundtrip P old u"
  obtain e ub where c: "User_MarshalJSONBuf P u = (e, ub)"
    by (cases "User_MarshalJSONBuf P u")
  show ?thesis
  proof (cases e)
    case None
    with c show ?thesis by simp
  next
    case (Some err)
    with a c show ?thesis by (simp add: user_roundtrip_def)
  qed
qed

lemma marshal_RoleIDs_total:
  "\<forall>v \<in> set vs. scalar_roundtrip P (RoleID_MarshalJSON P) dec old v \<Longrightarrow>
   \<exists>objs. marshal_RoleIDs P vs = Inr objs"
proof (induction vs)
  case Nil
  then show ?case by simp
next
  case (Cons v vs)
  then obtain objs where "marshal_RoleIDs P vs = Inr objs" by auto
  moreover from Cons.prems obtain b where "RoleID_MarshalJSON P v = Inr b"
    using scalar_roundtrip_encodes[of P "RoleID_MarshalJSON P" dec old v] by auto
  ultimately show ?case by simp
qed

lemma decode_encoded:
  assumes ok: "lexer_ok P"
    and name: "lexer_reads P (WriteJsonString P (Name j)) [(FFTok_string, Name j)]"
    and id: "scalar_roundtrip P (EmojiID_MarshalJSON P) (EmojiID_UnmarshalJSON P) 0 (ID j)"
    and roles: "\<forall>v \<in> set (case RoleIDs j of None \<Rightarrow> [] | Some vs \<Rightarrow> vs).
        scalar_roundtrip P (RoleID_MarshalJSON P) (RoleID_UnmarshalJSON P) 0 v"
    and user: "user_roundtrip P u0 (User j)"
  shows "\<exists>ms. encoded_members P j = Inr ms \<and>
     finishes P FFParse_map_start (render_object ms) (zero_Emoji u0)
       (j\<lparr>RoleIDs := (if (case RoleIDs j of None \<Rightarrow> [] | Some vs \<Rightarrow> vs) = [] then None
                       else RoleIDs j)\<rparr>)"
proof -
  define vs where "vs = (case RoleIDs j of None \<Rightarrow> [] | Some vs \<Rightarrow> vs)"
  from scalar_roundtrip_encodes[OF id] obtain idb where
    idb: "EmojiID_MarshalJSON P (ID j) = Inr idb"
    by blast
  from roles have rv0:
    "\<forall>v \<in> set vs. scalar_roundtrip P (RoleID_MarshalJSON P) (RoleID_UnmarshalJSON P) 0 v"
    unfolding vs_def .
  from marshal_RoleIDs_total[OF rv0] obtain objs where objs: "marshal_RoleIDs P vs = Inr objs"
    by blast
  from user_roundtrip_encodes[OF user] obtain ub where
    ub: "User_MarshalJSONBuf P (User j) = (None, ub)"
    by blast
  define rms where "rms = (if objs = [] then [] else [(''roles'', ''['' @ join '','' objs @ '']'')])"
  define b1 where "b1 = bool_member ''require_colons'' (RequireColons j)"
  define b2 where "b2 = bool_member ''managed'' (Managed j)"
  define b3 where "b3 = bool_member ''animated'' (Animated j)"
  define b4 where "b4 = bool_member ''available'' (Available j)"
  define ms where "ms = [(''id'', idb), (''name'', WriteJsonString P (Name j))] @ rms @
      [(''user'', ub)] @ b1 @ b2 @ b3 @ b4"
  have em: "encoded_members P j = Inr ms"
    using idb objs ub
    by (simp add: encoded_members_def vs_def ms_def rms_def b1_def b2_def b3_def b4_def)
  define t8 :: bytes where "t8 = ''}''"
  define t7 where "t7 = comma_members b4 @ t8"
  define t6 where "t6 = comma_members b3 @ t7"
  define t5 where "t5 = comma_members b2 @ t6"
  define t4 where "t4 = comma_members b1 @ t5"
  define t3 where "t3 = comma_members [(''user'', ub)] @ t4"
  define t2 where "t2 = comma_members rms @ t3"
  define t1 where "t1 = comma_members [(''name'', WriteJsonString P (Name j))] @ t2"
  have out: "render_object ms = ''{ '' @ render_member (''id'', idb) @ t1"
    by (simp add: ms_def render_object_Cons comma_members_simps t1_def t2_def t3_def t4_def
        t5_def t6_def t7_def t8_def)
  have d8: "delimited t8" by (simp add: t8_def delimited_def)
  have d7: "delimited t7" unfolding t7_def by (rule delimited_comma_members[OF d8])
  have d6: "delimited t6" unfolding t6_def by (rule delimited_comma_members[OF d7])
  have d5: "delimited t5" unfolding t5_def by (rule delimited_comma_members[OF d6])
  have d4: "delimited t4" unfolding t4_def by (rule delimited_comma_members[OF d5])
  have d1: "delimited t1" by (simp add: t1_def comma_members_simps delimited_def)
  define j0 where "j0 = zero_Emoji u0"
  define j1 where "j1 = j0\<lparr>ID := ID j\<rparr>"
  define j2 where "j2 = j1\<lparr>Name := Name j\<rparr>"
  define j3 where "j3 = (if vs = [] then j2 else j2\<lparr>RoleIDs := Some vs\<rparr>)"
  define j4 where "j4 = j3\<lparr>User := User j\<rparr>"
  define j5 where "j5 = j4\<lparr>RequireColons := RequireColons j\<rparr>"
  define j6 where "j6 = j5\<lparr>Managed := Managed j\<rparr>"
  define j7 where "j7 = j6\<lparr>Animated := Animated j\<rparr>"
  define j8 where "j8 = j7\<lparr>Available := Available j\<rparr>"
  have s0: "proceeds P FFParse_map_start (render_object ms) j0
              FFParse_want_key (render_member (''id'', idb) @ t1) j0"
    unfolding out by (rule proceeds_open[OF ok])
  have "scalar_roundtrip P (EmojiID_MarshalJSON P) (EmojiID_UnmarshalJSON P) (ID j0) (ID j)"
    using id by (simp add: j0_def zero_Emoji_def)
  from proceeds_id[OF ok this idb d1]
  have s1: "proceeds P FFParse_want_key (render_member (''id'', idb) @ t1) j0
              FFParse_after_value t1 j1"
    by (simp add: j1_def)
  have s2: "proceeds P FFParse_after_value t1 j1 FFParse_after_value t2 j2"
    unfolding t1_def j2_def
    by (rule proceeds_member[OF ok]) (rule proceeds_name[OF ok name])
  have s3: "proceeds P FFParse_after_value t2 j2 FFParse_after_value t3 j3"
  proof (cases "vs = []")
    case True
    with objs have "objs = []" by simp
    with True show ?thesis
      by (simp add: t2_def rms_def comma_members_simps j3_def proceeds_refl)
  next
    case False
    with objs have ne: "objs \<noteq> []"
      using marshal_RoleIDs_Nil_iff[of P vs] by auto
    from roles have rv:
      "\<forall>v \<in> set vs. scalar_roundtrip P (RoleID_MarshalJSON P) (RoleID_UnmarshalJSON P) 0 v"
      by (simp add: vs_def)
    have "proceeds P FFParse_after_value
            (comma_members [(''roles'', ''['' @ join '','' objs @ '']'')] @ t3) j2
            FFParse_after_value t3 (j2\<lparr>RoleIDs := Some vs\<rparr>)"
      by (rule proceeds_member[OF ok]) (rule proceeds_roles[OF ok rv objs False])
    with False ne show ?thesis
      by (simp add: t2_def rms_def j3_def)
  qed
  have "User j3 = u0"
    by (simp add: j3_def j2_def j1_def j0_def zero_Emoji_def)
  with user have "user_roundtrip P (User j3) (User j)" by simp
  from proceeds_member[OF ok proceeds_user[OF ok this ub d4]]
  have s4: "proceeds P FFParse_after_value t3 j3 FFParse_after_value t4 j4"
    by (simp add: t3_def j4_def)
  have z: "RequireColons j4 = False" "Managed j4 = False" "Animated j4 = False"
      "Available j4 = False"
    by (simp_all add: j4_def j3_def j2_def j1_def j0_def zero_Emoji_def)
  have w: "(''require_colons'', ffjtEmojiRequireColons) \<in> set wire_keys"
      "(''managed'', ffjtEmojiManaged) \<in> set wire_keys"
      "(''animated'', ffjtEmojiAnimated) \<in> set wire_keys"
      "(''available'', ffjtEmojiAvailable) \<in> set wire_keys"
    by (simp_all add: wire_keys_def ffjKey_defs)
  have bk: "ffjtEmojiRequireColons \<in> bool_keys" "ffjtEmojiManaged \<in> bool_keys"
      "ffjtEmojiAnimated \<in> bool_keys" "ffjtEmojiAvailable \<in> bool_keys"
    by (simp_all add: bool_keys_def)
  have s5: "proceeds P FFParse_after_value t4 j4 FFParse_after_value t5 j5"
    unfolding t4_def b1_def j5_def
    by (rule proceeds_opt_bool[OF ok w(1) bk(1) bool_handler_eqs(1) d5])
       (rule update_same, simp add: z)
  have s6: "proceeds P FFParse_after_value t5 j5 FFParse_after_value t6 j6"
    unfolding t5_def b2_def j6_def
    by (rule proceeds_opt_bool[OF ok w(2) bk(2) bool_handler_eqs(2) d6])
       (rule update_same, simp add: z j5_def)
  have s7: "proceeds P FFParse_after_value t6 j6 FFParse_after_value t7 j7"
    unfolding t6_def b3_def j7_def
    by (rule proceeds_opt_bool[OF ok w(3) bk(3) bool_handler_eqs(3) d7])
       (rule update_same, simp add: z j6_def j5_def)
  have s8: "proceeds P FFParse_after_value t7 j7 FFParse_after_value t8 j8"
    unfolding t7_def b4_def j8_def
    by (rule proceeds_opt_bool[OF ok w(4) bk(4) bool_handler_eqs(4) d8])
       (rule update_same, simp add: z j7_def j6_def j5_def)
  have s9: "finishes P FFParse_after_value t8 j8 j8"
    using finishes_close[OF ok, of "[]" j8] by (simp add: t8_def)
  have fin: "finishes P FFParse_map_start (render_object ms) j0 j8"
    by (intro proceeds_finishes[OF s0] proceeds_finishes[OF s1] proceeds_finishes[OF s2]
        proceeds_finishes[OF s3] proceeds_finishes[OF s4] proceeds_finishes[OF s5]
        proceeds_finishes[OF s6] proceeds_finishes[OF s7] proceeds_finishes[OF s8] s9)
  have "j8 = j\<lparr>RoleIDs := (if vs = [] then None else RoleIDs j)\<rparr>"
    by (cases j)
       (auto simp: j8_def j7_def j6_def j5_def j4_def j3_def j2_def j1_def j0_def zero_Emoji_def
          vs_def split: option.splits)
  with fin em show ?thesis
    by (auto simp: j0_def vs_def)
qed

text \<open>
  C1. When the lexer reads JSON punctuation, quoted keys and \<open>true\<close> as such, reads the
  string the encoder writes for the name back as the name, and the codecs of the
  identifiers and of \<open>User\<close> give back what they were given, then encoding an Emoji and
  decoding the bytes into a fresh Emoji succeeds and gives every field back: the result
  is the Emoji that was encoded, except that an empty \<open>RoleIDs\<close>, which the encoder
  omits, is nil in the result.
\<close>

theorem encode_decode_roundtrip:
  assumes "lexer_ok P"
    and "lexer_reads P (WriteJsonString P (Name j)) [(FFTok_string, Name j)]"
    and "scalar_roundtrip P (EmojiID_MarshalJSON P) (EmojiID_UnmarshalJSON P) 0 (ID j)"
    and "\<forall>v \<in> set (case RoleIDs j of None \<Rightarrow> [] | Some vs \<Rightarrow> vs).
        scalar_roundtrip P (RoleID_MarshalJSON P) (RoleID_UnmarshalJSON P) 0 v"
    and "user_roundtrip P u0 (User j)"
  shows "\<exists>out. MarshalJSON P (Some j) = Inr out \<and>
     UnmarshalJSON P out (zero_Emoji u0) =
       Some (None, j\<lparr>RoleIDs := (if (case RoleIDs j of None \<Rightarrow> [] | Some vs \<Rightarrow> vs) = []
                                   then None else RoleIDs j)\<rparr>)"
proof -
  from decode_encoded[OF assms] obtain ms where
    em: "encoded_members P j = Inr ms" and
    fin: "finishes P FFParse_map_start (render_object ms) (zero_Emoji u0)
       (j\<lparr>RoleIDs := (if (case RoleIDs j of None \<Rightarrow> [] | Some vs \<Rightarrow> vs) = [] then None
                       else RoleIDs j)\<rparr>)"
    by blast
  have m: "MarshalJSON P (Some j) = Inr (render_object ms)"
    by (simp add: MarshalJSON_members em)
  have "pending (NewFFLexer P (render_object ms)) = toks P (render_object ms)"
    by (simp add: toks_def)
  with fin obtain fs' where
    "mainparse P ffjtEmojibase FFParse_map_start (NewFFLexer P (render_object ms)) (zero_Emoji u0) =
     Some (None, j\<lparr>RoleIDs := (if (case RoleIDs j of None \<Rightarrow> [] | Some vs \<Rightarrow> vs) = [] then None
                       else RoleIDs j)\<rparr>, fs')"
    unfolding finishes_def by blast
  then have "UnmarshalJSON P (render_object ms) (zero_Emoji u0) =
       Some (None, j\<lparr>RoleIDs := (if (case RoleIDs j of None \<Rightarrow> [] | Some vs \<Rightarrow> vs) = []
                                   then None else RoleIDs j)\<rparr>)"
    by (simp add: UnmarshalJSON_def UnmarshalJSONFFLexer_def)
  with m show ?thesis by blast
qed

subsection \<open>The reference instance meets the conditions of the round trip\<close>

lemma ref_prims_sel:
  "NewFFLexer ref_prims = ref_NewFFLexer"
  "CaptureField ref_prims = ref_CaptureField"
  "WriteJsonString ref_prims = ref_WriteJsonString"
  "EmojiID_MarshalJSON ref_prims = ref_ID_MarshalJSON"
  "RoleID_MarshalJSON ref_prims = ref_ID_MarshalJSON"
  "EmojiID_UnmarshalJSON ref_prims = ref_ID_UnmarshalJSON"
  "RoleID_UnmarshalJSON ref_prims = ref_ID_UnmarshalJSON"
  "User_MarshalJSONBuf ref_prims = ref_User_MarshalJSONBuf"
  "User_UnmarshalJSONFFLexer ref_prims = ref_User_UnmarshalJSONFFLexer"
  by (simp_all add: ref_prims_def)

lemma toks_ref: "toks ref_prims b = ref_lex b"
  by (simp add: toks_def ref_prims_def ref_NewFFLexer_def)

lemma scan_string_escaped:
  "scan_string
     (concat (map (\<lambda>c. if c = CHR 0x22 \<or> c = CHR 0x5C then [CHR 0x5C, c] else [c]) s)
      @ CHR 0x22 # rest) = Some (s, rest)"
  by (induction s) auto

lemma ref_lex_string: "ref_lex (ref_WriteJsonString s @ rest) = (FFTok_string, s) # ref_lex rest"
  using scan_string_escaped[of s rest]
  by (simp add: ref_WriteJsonString_def is_blank_def)

lemma ref_reads_string: "lexer_reads ref_prims (ref_WriteJsonString s) [(FFTok_string, s)]"
  by (simp add: lexer_reads_def toks_ref ref_lex_string)

lemma ref_reads_key:
  \<open>lexer_reads ref_prims (''"'' @ key @ ''":'') [(FFTok_string, key), (FFTok_colon, [])]\<close>
  if "CHR 0x22 \<notin> set key" "CHR 0x5C \<notin> set key"
proof -
  from that have "concat (map (\<lambda>c. if c = CHR 0x22 \<or> c = CHR 0x5C then [CHR 0x5C, c] else [c]) key)
      = key"
    by (induction key) auto
  then have "ref_WriteJsonString key = CHR 0x22 # key @ [CHR 0x22]"
    by (simp add: ref_WriteJsonString_def)
  with ref_lex_string[of key] have "ref_lex (CHR 0x22 # key @ CHR 0x22 # rest) =
      (FFTok_string, key) # ref_lex rest" for rest
    by simp
  then show ?thesis
    by (simp add: lexer_reads_def toks_ref is_blank_def)
qed

lemma ref_lexer_ok: "lexer_ok ref_prims"
  unfolding lexer_ok_def
proof (intro conjI ballI)
  show "lexer_reads ref_prims ''{ '' [(FFTok_left_bracket, [])]"
    by (simp add: lexer_reads_def toks_ref is_blank_def)
  show "lexer_reads ref_prims ''}'' [(FFTok_right_bracket, [])]"
    by (simp add: lexer_reads_def toks_ref is_blank_def)
  show "lexer_reads ref_prims ''['' [(FFTok_left_brace, [])]"
    by (simp add: lexer_reads_def toks_ref is_blank_def)
  show "lexer_reads ref_prims '']'' [(FFTok_right_brace, [])]"
    by (simp add: lexer_reads_def toks_ref is_blank_def)
  show "lexer_reads ref_prims '','' [(FFTok_comma, [])]"
    by (simp add: lexer_reads_def toks_ref is_blank_def)
  show "lexer_reads_value ref_prims ''true'' [(FFTok_bool, ''true'')]"
    by (simp add: lexer_reads_value_def toks_ref is_blank_def is_digit_def)
  fix key
  assume "key \<in> fst ` set wire_keys"
  then have "CHR 0x22 \<notin> set key \<and> CHR 0x5C \<notin> set key"
    by (auto simp: wire_keys_def ffjKey_defs)
  then show "lexer_reads ref_prims ([CHR 0x22] @ key @ [CHR 0x22, CHR '':''])
      [(FFTok_string, key), (FFTok_colon, [])]"
    using ref_reads_key[of key] by simp
qed

lemma ref_scalar_roundtrip:
  assumes "ref_ID_MarshalJSON v = Inr (ref_WriteJsonString ds)"
    and "ref_ID_UnmarshalJSON (ref_WriteJsonString ds) old = (None, v)"
  shows "scalar_roundtrip ref_prims ref_ID_MarshalJSON ref_ID_UnmarshalJSON old v"
  using assms
  by (simp add: scalar_roundtrip_def toks_ref ref_lex_string Scan_def value_tok_def
      ref_prims_sel ref_CaptureField_def)

lemma ref_user_roundtrip: "user_roundtrip ref_prims old u"
proof -
  have "ref_lex ((''{\"username\":'' @ ref_WriteJsonString u @ ''}'') @ rest) =
      [(FFTok_left_bracket, []), (FFTok_string, ''username''), (FFTok_colon, []),
       (FFTok_string, u), (FFTok_right_bracket, [])] @ ref_lex rest" for rest
    using ref_lex_string[of u "''}'' @ rest"] by (simp add: is_blank_def)
  then show ?thesis
    by (simp add: user_roundtrip_def toks_ref Scan_def value_tok_def ref_prims_sel
        ref_User_MarshalJSONBuf_def ref_User_UnmarshalJSONFFLexer_def)
qed

theorem encode_decode_roundtrip_witness:
  \<open>lexer_ok ref_prims \<and>
   user_roundtrip ref_prims [] ''bob'' \<and>
   scalar_roundtrip ref_prims (EmojiID_MarshalJSON ref_prims) (EmojiID_UnmarshalJSON ref_prims) 0 77 \<and>
   (\<exists>out.
     MarshalJSON ref_prims
       (Some \<lparr>ID = 77, Name = ''q"z'', RoleIDs = Some [3, 4], User = ''bob'',
              RequireColons = False, Managed = False, Animated = True, Available = False\<rparr>) =
       Inr out \<and>
     UnmarshalJSON ref_prims out (zero_Emoji []) =
       Some (None, \<lparr>ID = 77, Name = ''q"z'', RoleIDs = Some [3, 4], User = ''bob'',
              RequireColons = False, Managed = False, Animated = True, Available = False\<rparr>))\<close>
proof -
  let ?j = \<open>\<lparr>ID = 77, Name = ''q"z'', RoleIDs = Some [3, 4], User = ''bob'',
              RequireColons = False, Managed = False, Animated = True, Available = False\<rparr>\<close>
  have e77: "ref_ID_MarshalJSON 77 = Inr (ref_WriteJsonString ''77'')" by code_simp
  have d77: "ref_ID_UnmarshalJSON (ref_WriteJsonString ''77'') 0 = (None, 77)" by code_simp
  have e3: "ref_ID_MarshalJSON 3 = Inr (ref_WriteJsonString ''3'')" by code_simp
  have d3: "ref_ID_UnmarshalJSON (ref_WriteJsonString ''3'') 0 = (None, 3)" by code_simp
  have e4: "ref_ID_MarshalJSON 4 = Inr (ref_WriteJsonString ''4'')" by code_simp
  have d4: "ref_ID_UnmarshalJSON (ref_WriteJsonString ''4'') 0 = (None, 4)" by code_simp
  have h1: "lexer_ok ref_prims" by (rule ref_lexer_ok)
  have h2: "lexer_reads ref_prims (WriteJsonString ref_prims (Name ?j)) [(FFTok_string, Name ?j)]"
    by (simp add: ref_prims_sel ref_reads_string)
  have h3: "scalar_roundtrip ref_prims (EmojiID_MarshalJSON ref_prims)
      (EmojiID_UnmarshalJSON ref_prims) 0 (ID ?j)"
    using ref_scalar_roundtrip[OF e77 d77] by (simp add: ref_prims_sel)
  have h4: "\<forall>v \<in> set (case RoleIDs ?j of None \<Rightarrow> [] | Some vs \<Rightarrow> vs).
      scalar_roundtrip ref_prims (RoleID_MarshalJSON ref_prims) (RoleID_UnmarshalJSON ref_prims) 0 v"
    using ref_scalar_roundtrip[OF e3 d3] ref_scalar_roundtrip[OF e4 d4]
    by (simp add: ref_prims_sel)
  have h5: "user_roundtrip ref_prims [] (User ?j)"
    by (rule ref_user_roundtrip)
  from encode_decode_roundtrip[OF h1 h2 h3 h4 h5] obtain out where
    o: "MarshalJSON ref_prims (Some ?j) = Inr out"
       "UnmarshalJSON ref_prims out (zero_Emoji []) =
         Some (None, ?j\<lparr>RoleIDs := (if (case RoleIDs ?j of None \<Rightarrow> [] | Some vs \<Rightarrow> vs) = []
                                   then None else RoleIDs ?j)\<rparr>)"
    by blast
  from o(2) have "UnmarshalJSON ref_prims out (zero_Emoji []) = Some (None, ?j)"
    by simp
  with o(1) have "\<exists>out. MarshalJSON ref_prims (Some ?j) = Inr out \<and>
      UnmarshalJSON ref_prims out (zero_Emoji []) = Some (None, ?j)"
    by blast
  moreover have "user_roundtrip ref_prims [] ''bob''"
    by (rule ref_user_roundtrip)
  moreover have "scalar_roundtrip ref_prims (EmojiID_MarshalJSON ref_prims)
      (EmojiID_UnmarshalJSON ref_prims) 0 77"
    using h3 by simp
  ultimately show ?thesis using h1 by blast
qed

end
